theory Spec2Isabelle
  imports Main
begin

section \<open>The recycling resource pool of \<open>recycle/resource_pool.hpp\<close>\<close>

text \<open>
  The pool is a C++ class template; its observable behaviour lives in four places:
  \<^item> \<open>resource_pool::impl\<close>, the pool core, with the two vectors \<open>m_free_vector\<close>
    (idle resources) and \<open>m_free_vector_control_blocks\<close> (cached memory blocks);
  \<^item> \<open>impl::SimpleAllocator\<close>, the allocator every handle's \<open>std::shared_ptr\<close> control
    block is obtained from and given back to;
  \<^item> \<open>resource_pool::deleter\<close>, run when the last owner of a handle goes away;
  \<^item> the facade \<open>resource_pool\<close>, which owns exactly one core.

  The embedding is sequential (the default \<open>no_locking_policy\<close>: every \<open>lock_type lock(m_mutex)\<close>
  is a no-op). Objects that the C++ code reaches through pointers and references live in an
  explicit store: pool cores by address, and handle control blocks by the address of their
  memory block. A destroyed pool core is an address the store no longer maps; reading it is
  the fault \<open>DanglingPoolAccess\<close>. The user-supplied functions act on the client's environment
  only: an allocation or recycle function that calls back into the pool is outside the model.
\<close>

subsection \<open>\<open>std::vector\<close>\<close>

text \<open>
  A vector is its element sequence (front first, \<open>back()\<close> is the last element) and its
  \<open>capacity()\<close>. \<open>reserve n\<close> on a vector is taken to yield a capacity of exactly \<open>n\<close> when it grows
  (the C++ standard allows more; libstdc++, libc++ and MSVC give exactly \<open>n\<close>). \<open>push_back\<close> on a
  full vector reallocates with the doubling policy of libstdc++; the pool never reaches it.
\<close>

record 'a vector =
  elems :: "'a list"
  reserved :: nat

definition vec_new :: "'a vector" where
  "vec_new = \<lparr>elems = [], reserved = 0\<rparr>"

definition vec_size :: "'a vector \<Rightarrow> nat" where
  "vec_size v = length (elems v)"

definition vec_capacity :: "'a vector \<Rightarrow> nat" where
  "vec_capacity v = reserved v"

definition vec_empty :: "'a vector \<Rightarrow> bool" where
  "vec_empty v = (elems v = [])"

definition vec_reserve :: "nat \<Rightarrow> 'a vector \<Rightarrow> 'a vector" where
  "vec_reserve n v = (if reserved v < n then v\<lparr>reserved := n\<rparr> else v)"

definition vec_push_back :: "'a \<Rightarrow> 'a vector \<Rightarrow> 'a vector" where
  "vec_push_back x v =
     \<lparr>elems = elems v @ [x],
      reserved = (if length (elems v) < reserved v then reserved v
                  else max 1 (2 * reserved v))\<rparr>"

text \<open>\<open>back()\<close> and \<open>pop_back()\<close> are only called by the source on a non-empty vector.\<close>

definition vec_back :: "'a vector \<Rightarrow> 'a" where
  "vec_back v = last (elems v)"

definition vec_pop_back :: "'a vector \<Rightarrow> 'a vector" where
  "vec_pop_back v = v\<lparr>elems := butlast (elems v)\<rparr>"

definition vec_clear :: "'a vector \<Rightarrow> 'a vector" where
  "vec_clear v = v\<lparr>elems := []\<rparr>"

subsection \<open>The pool core, handles and the store\<close>

type_synonym pool_ref = nat
type_synonym control_block_ptr = nat

text \<open>
  \<open>'v\<close> is the identity of a resource (what \<open>value_ptr::get()\<close> returns); \<open>'s\<close> is the state of the
  client's environment, the only thing the user-supplied functions can read and change.
  \<open>allocate_function\<close> returns \<open>None\<close> when it throws.
\<close>

type_synonym ('v, 's) allocate_function = "'s \<Rightarrow> 'v option \<times> 's"
type_synonym ('v, 's) recycle_function = "'v \<Rightarrow> 's \<Rightarrow> 's"

record ('v, 's) impl =
  m_allocate :: "('v, 's) allocate_function"
  m_recycle :: "('v, 's) recycle_function option"
  m_free_vector :: "'v vector"
  m_free_vector_control_blocks :: "control_block_ptr vector"

text \<open>
  The control block of a handle (the \<open>shared_ptr\<close> returned by \<open>allocate()\<close>): the number of
  \<open>shared_ptr\<close>s that own it and of \<open>weak_ptr\<close>s that refer to it,
  its \<open>deleter\<close> (\<open>m_pool\<close>, a weak pointer to the core, and \<open>m_resource\<close>) and its
  \<open>SimpleAllocator\<close> (\<open>m_should_take_cached\<close>, and the core whose
  \<open>m_free_vector_control_blocks\<close> and \<open>m_mutex\<close> it holds by reference).
\<close>

record 'v counted =
  use_count :: nat
  weak_count :: nat
  d_pool :: pool_ref
  d_resource :: 'v
  a_should_take_cached :: bool
  a_pool :: pool_ref

text \<open>
  What the run has done, in order: the calls of the C heap and of the two user functions, and
  the outcome of each comparison of \<open>size()\<close> with \<open>capacity()\<close> in \<open>impl::recycle\<close>, which ends
  the release of a resource: \<open>Recycled\<close> when the resource was pushed on the free list, \<open>Freed\<close>
  when it was not.
\<close>

datatype 'v event =
    Malloc control_block_ptr
  | Free control_block_ptr
  | AllocateCalled
  | RecycleCalled 'v
  | Recycled 'v
  | Freed 'v

record ('v, 's) world =
  pools :: "pool_ref \<Rightarrow> ('v, 's) impl option"
  pool_brk :: pool_ref
  handles :: "control_block_ptr \<Rightarrow> 'v counted option"
  heap_brk :: control_block_ptr
  env :: 's
  trace :: "'v event list"

datatype ('v, 's) fault =
    AllocateThrew "('v, 's) world"
  | DanglingPoolAccess
  | NoSuchHandle

definition start :: "'s \<Rightarrow> ('v, 's) world" where
  "start e = \<lparr>pools = (\<lambda>_. None), pool_brk = 0, handles = (\<lambda>_. None), heap_brk = 0,
              env = e, trace = []\<rparr>"

subsection \<open>The C heap\<close>

text \<open>\<open>std::malloc\<close> hands out an address that no live block has; \<open>std::free\<close> is recorded.\<close>

definition std_malloc :: "('v, 's) world \<Rightarrow> control_block_ptr \<times> ('v, 's) world" where
  "std_malloc w =
     (heap_brk w, w\<lparr>heap_brk := Suc (heap_brk w), trace := trace w @ [Malloc (heap_brk w)]\<rparr>)"

definition std_free :: "control_block_ptr \<Rightarrow> ('v, 's) world \<Rightarrow> ('v, 's) world" where
  "std_free p w = w\<lparr>trace := trace w @ [Free p]\<rparr>"

subsection \<open>\<open>impl::SimpleAllocator\<close>\<close>

definition SimpleAllocator_allocate ::
  "bool \<Rightarrow> pool_ref \<Rightarrow> ('v, 's) world \<Rightarrow> ('v, 's) fault + (control_block_ptr \<times> ('v, 's) world)" where
  "SimpleAllocator_allocate should_take_cached pr w =
     (if should_take_cached then
        (case pools w pr of
           None \<Rightarrow> Inl DanglingPoolAccess
         | Some p \<Rightarrow>
             if \<not> vec_empty (m_free_vector_control_blocks p) then
               let result = vec_back (m_free_vector_control_blocks p) in
               Inr (result,
                    w\<lparr>pools := (pools w)(pr \<mapsto>
                       p\<lparr>m_free_vector_control_blocks :=
                            vec_pop_back (m_free_vector_control_blocks p)\<rparr>)\<rparr>)
             else Inr (std_malloc w))
      else Inr (std_malloc w))"

definition SimpleAllocator_deallocate ::
  "pool_ref \<Rightarrow> control_block_ptr \<Rightarrow> ('v, 's) world \<Rightarrow> ('v, 's) fault + ('v, 's) world" where
  "SimpleAllocator_deallocate pr p w =
     (case pools w pr of
        None \<Rightarrow> Inl DanglingPoolAccess
      | Some pl \<Rightarrow>
          if vec_size (m_free_vector_control_blocks pl)
               < vec_capacity (m_free_vector_control_blocks pl) then
            Inr (w\<lparr>pools := (pools w)(pr \<mapsto>
                   pl\<lparr>m_free_vector_control_blocks :=
                         vec_push_back p (m_free_vector_control_blocks pl)\<rparr>)\<rparr>)
          else Inr (std_free p w))"

subsection \<open>\<open>impl\<close>: constructors, destructor and member functions\<close>

definition impl_new ::
  "('v, 's) allocate_function \<Rightarrow> ('v, 's) recycle_function option \<Rightarrow> nat \<Rightarrow> ('v, 's) impl" where
  "impl_new allocate recycle capacity =
     \<lparr>m_allocate = allocate, m_recycle = recycle,
      m_free_vector = vec_reserve capacity vec_new,
      m_free_vector_control_blocks = vec_reserve capacity vec_new\<rparr>"

text \<open>
  The loop of the copy constructor, \<open>for (uint32_t i = 0; i < size; ++i)
  m_free_vector.push_back(m_allocate())\<close>, counted by the iterations that remain.
\<close>

fun copy_fill ::
  "nat \<Rightarrow> ('v, 's) allocate_function \<Rightarrow> 'v vector \<Rightarrow> ('v, 's) world
     \<Rightarrow> ('v, 's) fault + ('v vector \<times> ('v, 's) world)" where
  "copy_fill 0 allocate v w = Inr (v, w)"
| "copy_fill (Suc n) allocate v w =
     (case allocate (env w) of
        (None, e') \<Rightarrow> Inl (AllocateThrew (w\<lparr>env := e', trace := trace w @ [AllocateCalled]\<rparr>))
      | (Some r, e') \<Rightarrow>
          copy_fill n allocate (vec_push_back r v)
            (w\<lparr>env := e', trace := trace w @ [AllocateCalled]\<rparr>))"

text \<open>
  \<open>impl(const impl& other)\<close>. The count is read into a \<open>uint32_t\<close>:
  \<open>uint32_t size = other.unused_resources()\<close>, where \<open>unused_resources()\<close> returns \<open>std::size_t\<close>.
\<close>

definition impl_copy ::
  "('v, 's) impl \<Rightarrow> ('v, 's) world \<Rightarrow> ('v, 's) fault + (('v, 's) impl \<times> ('v, 's) world)" where
  "impl_copy other w =
     (let size = vec_size (m_free_vector other) mod 2 ^ 32 in
      case copy_fill size (m_allocate other)
             (vec_reserve (vec_capacity (m_free_vector other)) vec_new) w of
        Inl f \<Rightarrow> Inl f
      | Inr (fv, w') \<Rightarrow>
          Inr (\<lparr>m_allocate = m_allocate other, m_recycle = m_recycle other,
                m_free_vector = fv,
                m_free_vector_control_blocks =
                  vec_reserve (vec_capacity (m_free_vector_control_blocks other)) vec_new\<rparr>, w'))"

text \<open>The body shared by \<open>~impl()\<close> and \<open>free_unused()\<close>.\<close>

definition release_all :: "('v, 's) impl \<Rightarrow> ('v, 's) world \<Rightarrow> ('v, 's) impl \<times> ('v, 's) world" where
  "release_all p w =
     (p\<lparr>m_free_vector := vec_clear (m_free_vector p),
        m_free_vector_control_blocks := vec_clear (m_free_vector_control_blocks p)\<rparr>,
      fold std_free (elems (m_free_vector_control_blocks p)) w)"

text \<open>
  The two calls of \<open>value_ptr(resource.get(), deleter(pool, resource),
  SimpleAllocator<void>(flag, m_free_vector_control_blocks, m_mutex))\<close> in \<open>impl::allocate\<close>:
  the control block comes from the allocator and starts with one owner.
\<close>

definition make_handle ::
  "bool \<Rightarrow> pool_ref \<Rightarrow> 'v \<Rightarrow> ('v, 's) world \<Rightarrow> ('v, 's) fault + (control_block_ptr \<times> ('v, 's) world)" where
  "make_handle should_take_cached pr resource w =
     (case SimpleAllocator_allocate should_take_cached pr w of
        Inl f \<Rightarrow> Inl f
      | Inr (blk, w') \<Rightarrow>
          Inr (blk,
               w'\<lparr>handles := (handles w')(blk \<mapsto>
                    \<lparr>use_count = 1, weak_count = 0, d_pool = pr, d_resource = resource,
                     a_should_take_cached = should_take_cached, a_pool = pr\<rparr>)\<rparr>))"

definition impl_allocate ::
  "pool_ref \<Rightarrow> ('v, 's) world \<Rightarrow> ('v, 's) fault + (control_block_ptr \<times> ('v, 's) world)" where
  "impl_allocate pr w =
     (case pools w pr of
        None \<Rightarrow> Inl DanglingPoolAccess
      | Some p \<Rightarrow>
          if vec_size (m_free_vector p) > 0 then
            let resource = vec_back (m_free_vector p);
                w' = w\<lparr>pools := (pools w)(pr \<mapsto>
                        p\<lparr>m_free_vector := vec_pop_back (m_free_vector p)\<rparr>)\<rparr>
            in make_handle True pr resource w'
          else
            (case m_allocate p (env w) of
               (None, e') \<Rightarrow>
                 Inl (AllocateThrew (w\<lparr>env := e', trace := trace w @ [AllocateCalled]\<rparr>))
             | (Some resource, e') \<Rightarrow>
                 make_handle False pr resource
                   (w\<lparr>env := e', trace := trace w @ [AllocateCalled]\<rparr>)))"

definition impl_free_unused :: "pool_ref \<Rightarrow> ('v, 's) world \<Rightarrow> ('v, 's) fault + ('v, 's) world" where
  "impl_free_unused pr w =
     (case pools w pr of
        None \<Rightarrow> Inl DanglingPoolAccess
      | Some p \<Rightarrow>
          (case release_all p w of (p', w') \<Rightarrow> Inr (w'\<lparr>pools := (pools w')(pr \<mapsto> p')\<rparr>)))"

definition impl_unused_resources :: "pool_ref \<Rightarrow> ('v, 's) world \<Rightarrow> ('v, 's) fault + nat" where
  "impl_unused_resources pr w =
     (case pools w pr of
        None \<Rightarrow> Inl DanglingPoolAccess
      | Some p \<Rightarrow> Inr (vec_size (m_free_vector p)))"

text \<open>\<open>impl::recycle\<close>, called through a pointer to a live core \<open>p\<close> at \<open>pr\<close>.\<close>

definition impl_recycle ::
  "pool_ref \<Rightarrow> ('v, 's) impl \<Rightarrow> 'v \<Rightarrow> ('v, 's) world \<Rightarrow> ('v, 's) world" where
  "impl_recycle pr p resource w =
     (let w' = (case m_recycle p of
                  Some f \<Rightarrow> w\<lparr>env := f resource (env w),
                              trace := trace w @ [RecycleCalled resource]\<rparr>
                | None \<Rightarrow> w)
      in if vec_size (m_free_vector p) < vec_capacity (m_free_vector p) then
           w'\<lparr>pools := (pools w')(pr \<mapsto>
                 p\<lparr>m_free_vector := vec_push_back resource (m_free_vector p)\<rparr>),
              trace := trace w' @ [Recycled resource]\<rparr>
         else w'\<lparr>trace := trace w' @ [Freed resource]\<rparr>)"

subsection \<open>\<open>deleter\<close> and the life of a handle\<close>

text \<open>
  \<open>deleter::operator()\<close>: \<open>m_pool.lock()\<close> yields the core exactly when it is still alive; then
  \<open>m_resource.reset()\<close> gives up the deleter's owning reference.
\<close>

definition deleter_call :: "'v counted \<Rightarrow> ('v, 's) world \<Rightarrow> ('v, 's) world" where
  "deleter_call cb w =
     (case pools w (d_pool cb) of
        Some p \<Rightarrow> impl_recycle (d_pool cb) p (d_resource cb) w
      | None \<Rightarrow> w)"

text \<open>
  Copying and destroying a handle is \<open>std::shared_ptr\<close>'s. The owner count goes up and down;
  the last owner runs the deleter. The control block lives on while a \<open>std::weak_ptr\<close> made
  from the handle refers to it: whoever goes last, the last owner or the last weak reference,
  destroys the control block and returns its memory through the allocator stored in it.
\<close>

definition copy_handle :: "control_block_ptr \<Rightarrow> ('v, 's) world \<Rightarrow> ('v, 's) fault + ('v, 's) world" where
  "copy_handle h w =
     (case handles w h of
        None \<Rightarrow> Inl NoSuchHandle
      | Some cb \<Rightarrow>
          if use_count cb = 0 then Inl NoSuchHandle
          else Inr (w\<lparr>handles := (handles w)(h \<mapsto> cb\<lparr>use_count := Suc (use_count cb)\<rparr>)\<rparr>))"

definition drop_handle :: "control_block_ptr \<Rightarrow> ('v, 's) world \<Rightarrow> ('v, 's) fault + ('v, 's) world" where
  "drop_handle h w =
     (case handles w h of
        None \<Rightarrow> Inl NoSuchHandle
      | Some cb \<Rightarrow>
          if use_count cb = 0 then Inl NoSuchHandle
          else if use_count cb > 1 then
            Inr (w\<lparr>handles := (handles w)(h \<mapsto> cb\<lparr>use_count := use_count cb - 1\<rparr>)\<rparr>)
          else
            let w' = deleter_call cb w in
            if weak_count cb > 0 then
              Inr (w'\<lparr>handles := (handles w')(h \<mapsto> cb\<lparr>use_count := 0\<rparr>)\<rparr>)
            else
              SimpleAllocator_deallocate (a_pool cb) h (w'\<lparr>handles := (handles w')(h := None)\<rparr>))"

definition weak_handle :: "control_block_ptr \<Rightarrow> ('v, 's) world \<Rightarrow> ('v, 's) fault + ('v, 's) world" where
  "weak_handle h w =
     (case handles w h of
        None \<Rightarrow> Inl NoSuchHandle
      | Some cb \<Rightarrow> Inr (w\<lparr>handles := (handles w)(h \<mapsto> cb\<lparr>weak_count := Suc (weak_count cb)\<rparr>)\<rparr>))"

definition drop_weak :: "control_block_ptr \<Rightarrow> ('v, 's) world \<Rightarrow> ('v, 's) fault + ('v, 's) world" where
  "drop_weak h w =
     (case handles w h of
        None \<Rightarrow> Inl NoSuchHandle
      | Some cb \<Rightarrow>
          if weak_count cb = 0 then Inl NoSuchHandle
          else if weak_count cb > 1 \<or> use_count cb > 0 then
            Inr (w\<lparr>handles := (handles w)(h \<mapsto> cb\<lparr>weak_count := weak_count cb - 1\<rparr>)\<rparr>)
          else
            SimpleAllocator_deallocate (a_pool cb) h (w\<lparr>handles := (handles w)(h := None)\<rparr>))"

text \<open>Dereferencing a handle that has an owner.\<close>

definition handle_get :: "control_block_ptr \<Rightarrow> ('v, 's) world \<Rightarrow> 'v option" where
  "handle_get h w =
     (case handles w h of
        None \<Rightarrow> None
      | Some cb \<Rightarrow> if use_count cb = 0 then None else Some (d_resource cb))"

subsection \<open>The facade \<open>resource_pool\<close>\<close>

text \<open>
  A facade owns one core, so a facade is named by the address of its core. The constructors
  return that address; the destructor of the facade destroys the core (no call of
  \<open>impl::allocate\<close>, the only other owner, is in progress in a sequential run).
\<close>

definition DEFAULT_CAPACITY :: nat where
  "DEFAULT_CAPACITY = 10000"

definition resource_pool_new ::
  "('v, 's) allocate_function \<Rightarrow> ('v, 's) recycle_function option \<Rightarrow> nat \<Rightarrow> ('v, 's) world
     \<Rightarrow> pool_ref \<times> ('v, 's) world" where
  "resource_pool_new allocate recycle capacity w =
     (pool_brk w,
      w\<lparr>pools := (pools w)(pool_brk w \<mapsto> impl_new allocate recycle capacity),
        pool_brk := Suc (pool_brk w)\<rparr>)"

definition resource_pool_copy ::
  "pool_ref \<Rightarrow> ('v, 's) world \<Rightarrow> ('v, 's) fault + (pool_ref \<times> ('v, 's) world)" where
  "resource_pool_copy other w =
     (case pools w other of
        None \<Rightarrow> Inl DanglingPoolAccess
      | Some p \<Rightarrow>
          (case impl_copy p w of
             Inl f \<Rightarrow> Inl f
           | Inr (p', w') \<Rightarrow>
               Inr (pool_brk w',
                    w'\<lparr>pools := (pools w')(pool_brk w' \<mapsto> p'), pool_brk := Suc (pool_brk w')\<rparr>)))"

definition resource_pool_destroy :: "pool_ref \<Rightarrow> ('v, 's) world \<Rightarrow> ('v, 's) fault + ('v, 's) world" where
  "resource_pool_destroy pr w =
     (case pools w pr of
        None \<Rightarrow> Inl DanglingPoolAccess
      | Some p \<Rightarrow>
          (case release_all p w of (p', w') \<Rightarrow> Inr (w'\<lparr>pools := (pools w')(pr := None)\<rparr>)))"

definition allocate ::
  "pool_ref \<Rightarrow> ('v, 's) world \<Rightarrow> ('v, 's) fault + (control_block_ptr \<times> ('v, 's) world)" where
  "allocate pr w = impl_allocate pr w"

definition free_unused :: "pool_ref \<Rightarrow> ('v, 's) world \<Rightarrow> ('v, 's) fault + ('v, 's) world" where
  "free_unused pr w = impl_free_unused pr w"

definition unused_resources :: "pool_ref \<Rightarrow> ('v, 's) world \<Rightarrow> ('v, 's) fault + nat" where
  "unused_resources pr w = impl_unused_resources pr w"

subsection \<open>Client programs\<close>

text \<open>
  A client is a sequence of calls on facades and handles. A client that goes on after the
  allocation function threw has caught the exception: the run continues in the state the
  throw left behind. Any other fault ends the run.
\<close>

datatype ('v, 's) action =
    Construct "('v, 's) allocate_function" "('v, 's) recycle_function option" nat
  | CopyPool pool_ref
  | DestroyPool pool_ref
  | Allocate pool_ref
  | FreeUnused pool_ref
  | CopyHandle control_block_ptr
  | DropHandle control_block_ptr
  | WeakHandle control_block_ptr
  | DropWeak control_block_ptr

fun caught :: "('v, 's) fault + ('v, 's) world \<Rightarrow> ('v, 's) fault + ('v, 's) world" where
  "caught (Inl (AllocateThrew w)) = Inr w"
| "caught r = r"

fun perform :: "('v, 's) action \<Rightarrow> ('v, 's) world \<Rightarrow> ('v, 's) fault + ('v, 's) world" where
  "perform (Construct a r c) w = Inr (snd (resource_pool_new a r c w))"
| "perform (CopyPool pr) w = caught (map_sum id snd (resource_pool_copy pr w))"
| "perform (DestroyPool pr) w = resource_pool_destroy pr w"
| "perform (Allocate pr) w = caught (map_sum id snd (allocate pr w))"
| "perform (FreeUnused pr) w = free_unused pr w"
| "perform (CopyHandle h) w = copy_handle h w"
| "perform (DropHandle h) w = drop_handle h w"
| "perform (WeakHandle h) w = weak_handle h w"
| "perform (DropWeak h) w = drop_weak h w"

fun run :: "('v, 's) action list \<Rightarrow> ('v, 's) world \<Rightarrow> ('v, 's) fault + ('v, 's) world" where
  "run [] w = Inr w"
| "run (a # as) w = (case perform a w of Inl f \<Rightarrow> Inl f | Inr w' \<Rightarrow> run as w')"

text \<open>\<open>n\<close> calls of \<open>allocate()\<close> in a row, keeping the handles; and dropping a list of handles.\<close>

fun allocate_n ::
  "nat \<Rightarrow> pool_ref \<Rightarrow> ('v, 's) world \<Rightarrow> ('v, 's) fault + (control_block_ptr list \<times> ('v, 's) world)" where
  "allocate_n 0 pr w = Inr ([], w)"
| "allocate_n (Suc n) pr w =
     (case allocate pr w of
        Inl f \<Rightarrow> Inl f
      | Inr (h, w') \<Rightarrow>
          (case allocate_n n pr w' of
             Inl f \<Rightarrow> Inl f
           | Inr (hs, w'') \<Rightarrow> Inr (h # hs, w'')))"

fun drop_all :: "control_block_ptr list \<Rightarrow> ('v, 's) world \<Rightarrow> ('v, 's) fault + ('v, 's) world" where
  "drop_all [] w = Inr w"
| "drop_all (h # hs) w = (case drop_handle h w of Inl f \<Rightarrow> Inl f | Inr w' \<Rightarrow> drop_all hs w')"

text \<open>
  \<open>sole_handle pr w h r\<close>: in \<open>w\<close>, \<open>h\<close> is a handle with a single owner (and any number of weak
  references), issued by pool \<open>pr\<close>, to the resource \<open>r\<close>.
\<close>

definition sole_handle :: "pool_ref \<Rightarrow> ('v, 's) world \<Rightarrow> control_block_ptr \<Rightarrow> 'v \<Rightarrow> bool" where
  "sole_handle pr w h r =
     (case handles w h of
        None \<Rightarrow> False
      | Some cb \<Rightarrow> use_count cb = 1 \<and> d_pool cb = pr \<and> a_pool cb = pr \<and> d_resource cb = r)"

text \<open>\<open>n\<close> calls of \<open>allocate()\<close> in a row, reading the resource of each handle as it is returned.\<close>

fun allocate_resources ::
  "nat \<Rightarrow> pool_ref \<Rightarrow> ('v, 's) world \<Rightarrow> ('v, 's) fault + ('v list \<times> ('v, 's) world)" where
  "allocate_resources 0 pr w = Inr ([], w)"
| "allocate_resources (Suc n) pr w =
     (case allocate pr w of
        Inl f \<Rightarrow> Inl f
      | Inr (h, w') \<Rightarrow>
          (case handle_get h w' of
             None \<Rightarrow> Inl NoSuchHandle
           | Some r \<Rightarrow>
               (case allocate_resources n pr w' of
                  Inl f \<Rightarrow> Inl f
                | Inr (rs, w'') \<Rightarrow> Inr (r # rs, w''))))"

text \<open>The state a client program ends in (the starting state when the run faults).\<close>

definition after :: "('v, 's) action list \<Rightarrow> ('v, 's) world \<Rightarrow> ('v, 's) world" where
  "after acts w = (case run acts w of Inr w' \<Rightarrow> w' | Inl _ \<Rightarrow> w)"

text \<open>How often the run has called the allocation function and the recycle function.\<close>

definition allocate_calls :: "('v, 's) world \<Rightarrow> nat" where
  "allocate_calls w = length (filter (\<lambda>e. case e of AllocateCalled \<Rightarrow> True | _ \<Rightarrow> False) (trace w))"

definition recycled :: "('v, 's) world \<Rightarrow> 'v list" where
  "recycled w = concat (map (\<lambda>e. case e of RecycleCalled r \<Rightarrow> [r] | _ \<Rightarrow> []) (trace w))"

definition mallocs :: "('v, 's) world \<Rightarrow> control_block_ptr list" where
  "mallocs w = concat (map (\<lambda>e. case e of Malloc p \<Rightarrow> [p] | _ \<Rightarrow> []) (trace w))"

definition frees :: "('v, 's) world \<Rightarrow> control_block_ptr list" where
  "frees w = concat (map (\<lambda>e. case e of Free p \<Rightarrow> [p] | _ \<Rightarrow> []) (trace w))"

text \<open>Programs that make no weak reference to a handle.\<close>

fun strong_only :: "('v, 's) action \<Rightarrow> bool" where
  "strong_only (WeakHandle h) = False"
| "strong_only (DropWeak h) = False"
| "strong_only a = True"

subsection \<open>The record of releases\<close>

text \<open>
  What the trace says about \<open>impl::recycle\<close>: the calls of the recycle function and the outcomes
  of the comparison of \<open>size()\<close> with \<open>capacity()\<close>, in the order in which they happened; and the
  resources on which a list of events calls the recycle function.
\<close>

definition release_log :: "('v, 's) world \<Rightarrow> 'v event list" where
  "release_log w =
     filter (\<lambda>e. case e of RecycleCalled r \<Rightarrow> True | Recycled r \<Rightarrow> True | Freed r \<Rightarrow> True
                  | _ \<Rightarrow> False) (trace w)"

definition calls_in :: "'v event list \<Rightarrow> 'v list" where
  "calls_in evs = concat (map (\<lambda>e. case e of RecycleCalled r \<Rightarrow> [r] | _ \<Rightarrow> []) evs)"

text \<open>
  What the specification says a release is, written from its words and not from the code: only
  the drop of the last owner of a handle whose pool is alive is a release; it calls the recycle
  function, if one was supplied, exactly once on the resource of the handle and before anything
  else, and then the capacity check decides between \<open>Recycled\<close> and \<open>Freed\<close>. No other operation
  (and no drop of one of several owners, of a weak reference, or of a handle whose pool is gone)
  calls the recycle function or touches the free list on behalf of a handle.
\<close>

fun expected_release_events :: "('v, 's) action \<Rightarrow> ('v, 's) world \<Rightarrow> 'v event list" where
  "expected_release_events (DropHandle h) w =
     (case handles w h of
        None \<Rightarrow> []
      | Some cb \<Rightarrow>
          if use_count cb \<noteq> 1 then []
          else
            (case pools w (d_pool cb) of
               None \<Rightarrow> []
             | Some p \<Rightarrow>
                 (case m_recycle p of
                    Some f \<Rightarrow> [RecycleCalled (d_resource cb)]
                  | None \<Rightarrow> [])
                 @ [if vec_size (m_free_vector p) < vec_capacity (m_free_vector p)
                    then Recycled (d_resource cb) else Freed (d_resource cb)]))"
| "expected_release_events a w = []"

text \<open>The releases the specification expects of a whole client program, step after step.\<close>

fun expected_release_log :: "('v, 's) action list \<Rightarrow> ('v, 's) world \<Rightarrow> 'v event list" where
  "expected_release_log [] w = []"
| "expected_release_log (a # as) w =
     expected_release_events a w
       @ (case perform a w of Inl f \<Rightarrow> [] | Inr w' \<Rightarrow> expected_release_log as w')"

text \<open>
  A counter \<open>cnt\<close> read off the client's environment that every recycle function increments and
  that no allocation function changes: of one core, of every live core of a world, and of the
  cores a client program constructs.
\<close>

definition counts_recycles :: "('s \<Rightarrow> nat) \<Rightarrow> ('v, 's) impl \<Rightarrow> bool" where
  "counts_recycles cnt p \<longleftrightarrow>
     (\<forall>e. cnt (snd (m_allocate p e)) = cnt e) \<and>
     (\<forall>f r e. m_recycle p = Some f \<longrightarrow> cnt (f r e) = Suc (cnt e))"

definition counted :: "('s \<Rightarrow> nat) \<Rightarrow> ('v, 's) world \<Rightarrow> bool" where
  "counted cnt w \<longleftrightarrow> (\<forall>pr p. pools w pr = Some p \<longrightarrow> counts_recycles cnt p)"

fun counting_action :: "('s \<Rightarrow> nat) \<Rightarrow> ('v, 's) action \<Rightarrow> bool" where
  "counting_action cnt (Construct a r c) = counts_recycles cnt (impl_new a r c)"
| "counting_action cnt a = True"

text \<open>Every live core of \<open>w'\<close> has the functions it had in \<open>w\<close>.\<close>

definition same_functions :: "('v, 's) world \<Rightarrow> ('v, 's) world \<Rightarrow> bool" where
  "same_functions w w' \<longleftrightarrow>
     (\<forall>q p'. pools w' q = Some p' \<longrightarrow>
        (\<exists>p. pools w q = Some p \<and> m_allocate p' = m_allocate p \<and> m_recycle p' = m_recycle p))"

subsection \<open>Invariants of the two vectors\<close>

text \<open>
  Both vectors of a core constructed with capacity \<open>c\<close> keep that capacity and never hold
  more. As long as no weak reference to a handle is made, the cache of blocks never holds more
  than the free list holds resources.
\<close>

definition pool_bounded :: "nat \<Rightarrow> ('v, 's) impl \<Rightarrow> bool" where
  "pool_bounded c p \<longleftrightarrow>
     vec_capacity (m_free_vector p) = c \<and> vec_size (m_free_vector p) \<le> c \<and>
     vec_capacity (m_free_vector_control_blocks p) = c \<and>
     vec_size (m_free_vector_control_blocks p) \<le> c"

text \<open>
  The address \<open>pr\<close> has been handed out, and the pool at \<open>pr\<close>, if it is alive, is within
  capacity \<open>c\<close>.
\<close>

definition bounded_at :: "nat \<Rightarrow> pool_ref \<Rightarrow> ('v, 's) world \<Rightarrow> bool" where
  "bounded_at c pr w \<longleftrightarrow>
     pr < pool_brk w \<and> (case pools w pr of None \<Rightarrow> True | Some p \<Rightarrow> pool_bounded c p)"

definition pool_paired :: "('v, 's) impl \<Rightarrow> bool" where
  "pool_paired p \<longleftrightarrow>
     vec_capacity (m_free_vector_control_blocks p) = vec_capacity (m_free_vector p) \<and>
     vec_size (m_free_vector p) \<le> vec_capacity (m_free_vector p) \<and>
     vec_size (m_free_vector_control_blocks p) \<le> vec_size (m_free_vector p)"

definition paired :: "('v, 's) world \<Rightarrow> bool" where
  "paired w \<longleftrightarrow>
     (\<forall>pr p. pools w pr = Some p \<longrightarrow> pool_paired p) \<and>
     (\<forall>h cb. handles w h = Some cb \<longrightarrow>
        a_pool cb = d_pool cb \<and> weak_count cb = 0 \<and> 0 < use_count cb)"

text \<open>
  What a live core is after \<open>impl::recycle\<close> (the resource is pushed if there is room), and
  after \<open>impl::recycle\<close> followed by \<open>SimpleAllocator::deallocate\<close> (the block is pushed too, if
  there is room).
\<close>

definition pushed_impl :: "'v \<Rightarrow> ('v, 's) impl \<Rightarrow> ('v, 's) impl" where
  "pushed_impl r p =
     p\<lparr>m_free_vector :=
         (if vec_size (m_free_vector p) < vec_capacity (m_free_vector p)
          then vec_push_back r (m_free_vector p) else m_free_vector p)\<rparr>"

definition recycled_impl :: "control_block_ptr \<Rightarrow> 'v \<Rightarrow> ('v, 's) impl \<Rightarrow> ('v, 's) impl" where
  "recycled_impl h r p =
     p\<lparr>m_free_vector :=
         (if vec_size (m_free_vector p) < vec_capacity (m_free_vector p)
          then vec_push_back r (m_free_vector p) else m_free_vector p),
       m_free_vector_control_blocks :=
         (if vec_size (m_free_vector_control_blocks p)
               < vec_capacity (m_free_vector_control_blocks p)
          then vec_push_back h (m_free_vector_control_blocks p)
          else m_free_vector_control_blocks p)\<rparr>"

subsection \<open>Examples\<close>

text \<open>
  The environment of the examples is a pair of counters: the last integer handed out by the
  allocation function, and the number of calls of the recycle function.
\<close>

definition fresh_allocate :: "(nat, nat \<times> nat) allocate_function" where
  "fresh_allocate e = (Some (Suc (fst e)), (Suc (fst e), snd e))"

definition flaky_allocate :: "(nat, nat \<times> nat) allocate_function" where
  "flaky_allocate e =
     (if fst e = 0 then (None, (Suc (fst e), snd e)) else (Some (Suc (fst e)), (Suc (fst e), snd e)))"

definition count_recycle :: "(nat, nat \<times> nat) recycle_function" where
  "count_recycle r e = (fst e, Suc (snd e))"

text \<open>
  Example states: a pool of capacity 2 with two handles issued, before and after the first
  one was dropped.
\<close>

definition two_issued :: "(nat, nat \<times> nat) world" where
  "two_issued = after [Construct fresh_allocate (Some count_recycle) 2, Allocate 0, Allocate 0]
                  (start (0, 0))"

definition one_idle :: "(nat, nat \<times> nat) world" where
  "one_idle = after [DropHandle 0] two_issued"

text \<open>Two freshly constructed pools of capacity 2.\<close>

definition fresh_pool :: "(nat, nat \<times> nat) world" where
  "fresh_pool = after [Construct fresh_allocate (Some count_recycle) 2] (start (0, 0))"

definition flaky_pool :: "(nat, nat \<times> nat) world" where
  "flaky_pool = after [Construct flaky_allocate None 2] (start (0, 0))"

text \<open>
  More example states: a pool of capacity 1 with two handles issued; the same with the first
  handle copied once; a handle whose pool (of capacity 1, with a counting recycle function)
  has been destroyed, and the control block of that handle.
\<close>

definition small_issued :: "(nat, nat \<times> nat) world" where
  "small_issued = after [Construct fresh_allocate (Some count_recycle) 1, Allocate 0, Allocate 0]
                    (start (0, 0))"

definition shared_issued :: "(nat, nat \<times> nat) world" where
  "shared_issued = after [CopyHandle 0] small_issued"

definition orphan :: "(nat, nat \<times> nat) world" where
  "orphan = after [Construct fresh_allocate (Some count_recycle) 1, Allocate 0, DestroyPool 0]
              (start (0, 0))"

definition orphan_block :: "nat counted" where
  "orphan_block = \<lparr>use_count = 1, weak_count = 0, d_pool = 0, d_resource = 1,
                    a_should_take_cached = False, a_pool = 0\<rparr>"

text \<open>
  A handle whose only owner went away while a weak reference to it remains; and the state
  after its resource was issued again and the weak reference went away too.
\<close>

definition expired_handle :: "(nat, nat \<times> nat) world" where
  "expired_handle = after [Construct fresh_allocate None 2, Allocate 0, WeakHandle 0, DropHandle 0]
                      (start (0, 0))"

definition stale_cache :: "(nat, nat \<times> nat) world" where
  "stale_cache = after [Allocate 0, DropWeak 0] expired_handle"

text \<open>A freshly constructed pool of capacity \<open>2 ^ 32\<close>.\<close>

definition big_fresh :: "(nat, nat \<times> nat) world" where
  "big_fresh = after [Construct fresh_allocate None (2 ^ 32)] (start (0, 0))"

text \<open>
  A pool of capacity 1 with the counting recycle function issues two handles; a weak reference is
  made to the second; both handles are dropped, then the weak reference.
\<close>

definition full_run :: "(nat, nat \<times> nat) action list" where
  "full_run = [Construct fresh_allocate (Some count_recycle) 1, Allocate 0, Allocate 0,
               WeakHandle 1, DropHandle 0, DropHandle 1, DropWeak 1]"

section \<open>Properties\<close>

lemmas vec_defs = vec_new_def vec_reserve_def vec_size_def vec_capacity_def vec_empty_def
  vec_push_back_def vec_back_def vec_pop_back_def vec_clear_def

lemmas op_defs = resource_pool_new_def impl_new_def allocate_def impl_allocate_def make_handle_def
  SimpleAllocator_allocate_def SimpleAllocator_deallocate_def std_malloc_def std_free_def
  resource_pool_destroy_def release_all_def drop_handle_def deleter_call_def impl_recycle_def
  free_unused_def impl_free_unused_def unused_resources_def impl_unused_resources_def
  copy_handle_def resource_pool_copy_def impl_copy_def weak_handle_def drop_weak_def

lemmas example_defs = start_def fresh_allocate_def flaky_allocate_def count_recycle_def after_def
  two_issued_def one_idle_def fresh_pool_def flaky_pool_def small_issued_def shared_issued_def
  orphan_def orphan_block_def expired_handle_def stale_cache_def

subsection \<open>Single steps\<close>

lemma trace_fold_free [simp]:
  "trace (fold std_free ps w) = trace w @ map Free ps"
  by (induction ps arbitrary: w) (simp_all add: std_free_def)

lemma fold_free_fields [simp]:
  "pools (fold std_free ps w) = pools w"
  "handles (fold std_free ps w) = handles w"
  "env (fold std_free ps w) = env w"
  "heap_brk (fold std_free ps w) = heap_brk w"
  "pool_brk (fold std_free ps w) = pool_brk w"
  by (induction ps arbitrary: w, simp_all add: std_free_def)+

lemma vec_reserve_new [simp]:
  "elems (vec_reserve n vec_new) = []" "reserved (vec_reserve n vec_new) = n"
  by (simp_all add: vec_reserve_def vec_new_def)

text \<open>The last owner of a handle goes away while the core is alive.\<close>

lemma drop_handle_last:
  assumes h: "handles w h = Some cb" and u: "use_count cb = 1"
    and p: "pools w (d_pool cb) = Some p" and a: "a_pool cb = d_pool cb"
  shows "drop_handle h w = Inr
     (w\<lparr>handles := (if weak_count cb = 0 then (handles w)(h := None)
                     else (handles w)(h \<mapsto> cb\<lparr>use_count := 0\<rparr>)),
        pools := (pools w)(d_pool cb \<mapsto>
                   (if weak_count cb = 0 then recycled_impl h (d_resource cb) p
                    else pushed_impl (d_resource cb) p)),
        env := (case m_recycle p of Some f \<Rightarrow> f (d_resource cb) (env w) | None \<Rightarrow> env w),
        trace := trace w
             @ (case m_recycle p of Some f \<Rightarrow> [RecycleCalled (d_resource cb)] | None \<Rightarrow> [])
             @ [if vec_size (m_free_vector p) < vec_capacity (m_free_vector p)
                then Recycled (d_resource cb) else Freed (d_resource cb)]
             @ (if weak_count cb = 0 \<and> \<not> vec_size (m_free_vector_control_blocks p)
                     < vec_capacity (m_free_vector_control_blocks p) then [Free h] else [])\<rparr>)"
  using assms
  by (cases "m_recycle p")
     (auto simp: drop_handle_def deleter_call_def impl_recycle_def SimpleAllocator_deallocate_def
        std_free_def Let_def fun_upd_idem recycled_impl_def pushed_impl_def)

text \<open>The last weak reference to a handle without owners goes away while the core is alive.\<close>

lemma drop_weak_last:
  assumes h: "handles w h = Some cb" and u: "use_count cb = 0" and k: "weak_count cb = 1"
    and p: "pools w (a_pool cb) = Some p"
  shows "drop_weak h w =
     (if vec_size (m_free_vector_control_blocks p) < vec_capacity (m_free_vector_control_blocks p)
      then Inr (w\<lparr>handles := (handles w)(h := None),
                  pools := (pools w)(a_pool cb \<mapsto>
                    p\<lparr>m_free_vector_control_blocks :=
                         vec_push_back h (m_free_vector_control_blocks p)\<rparr>)\<rparr>)
      else Inr (w\<lparr>handles := (handles w)(h := None), trace := trace w @ [Free h]\<rparr>))"
  using assms
  by (auto simp: drop_weak_def SimpleAllocator_deallocate_def std_free_def)

lemma drop_handle_shared:
  assumes "handles w h = Some cb" "use_count cb > 1"
  shows "drop_handle h w = Inr (w\<lparr>handles := (handles w)(h \<mapsto> cb\<lparr>use_count := use_count cb - 1\<rparr>)\<rparr>)"
  using assms by (simp add: drop_handle_def)

text \<open>\<open>allocate()\<close> with an idle resource at hand, and without.\<close>

lemma allocate_hit:
  assumes "pools w pr = Some p" "elems (m_free_vector p) \<noteq> []"
  shows "allocate pr w =
     (let cb = \<lparr>use_count = 1, weak_count = 0, d_pool = pr,
                d_resource = last (elems (m_free_vector p)),
                a_should_take_cached = True, a_pool = pr\<rparr>;
          fv = vec_pop_back (m_free_vector p) in
      if elems (m_free_vector_control_blocks p) \<noteq> [] then
        Inr (last (elems (m_free_vector_control_blocks p)),
             w\<lparr>pools := (pools w)(pr \<mapsto> p\<lparr>m_free_vector := fv,
                   m_free_vector_control_blocks := vec_pop_back (m_free_vector_control_blocks p)\<rparr>),
               handles := (handles w)(last (elems (m_free_vector_control_blocks p)) \<mapsto> cb)\<rparr>)
      else
        Inr (heap_brk w,
             w\<lparr>pools := (pools w)(pr \<mapsto> p\<lparr>m_free_vector := fv\<rparr>),
               heap_brk := Suc (heap_brk w), trace := trace w @ [Malloc (heap_brk w)],
               handles := (handles w)(heap_brk w \<mapsto> cb)\<rparr>))"
  using assms
  by (simp add: allocate_def impl_allocate_def make_handle_def SimpleAllocator_allocate_def
        std_malloc_def vec_size_def vec_empty_def vec_back_def Let_def)

lemma allocate_miss:
  assumes "pools w pr = Some p" "elems (m_free_vector p) = []"
  shows "allocate pr w =
     (case m_allocate p (env w) of
        (None, e') \<Rightarrow> Inl (AllocateThrew (w\<lparr>env := e', trace := trace w @ [AllocateCalled]\<rparr>))
      | (Some r, e') \<Rightarrow>
          Inr (heap_brk w,
               w\<lparr>env := e', heap_brk := Suc (heap_brk w),
                 trace := trace w @ [AllocateCalled, Malloc (heap_brk w)],
                 handles := (handles w)(heap_brk w \<mapsto>
                    \<lparr>use_count = 1, weak_count = 0, d_pool = pr, d_resource = r,
                     a_should_take_cached = False, a_pool = pr\<rparr>)\<rparr>))"
  using assms
  by (auto simp: allocate_def impl_allocate_def make_handle_def SimpleAllocator_allocate_def
        std_malloc_def vec_size_def Let_def split: prod.splits option.splits)

lemma allocate_Inr:
  assumes p: "pools w pr = Some p" and a: "allocate pr w = Inr (h, w1)"
  shows "\<exists>cb p1. handles w1 h = Some cb \<and> use_count cb = 1 \<and> weak_count cb = 0 \<and>
           d_pool cb = pr \<and> a_pool cb = pr \<and>
           pools w1 pr = Some p1 \<and> (\<forall>q. q \<noteq> pr \<longrightarrow> pools w1 q = pools w q) \<and>
           m_allocate p1 = m_allocate p \<and> m_recycle p1 = m_recycle p \<and>
           reserved (m_free_vector p1) = reserved (m_free_vector p) \<and>
           reserved (m_free_vector_control_blocks p1) = reserved (m_free_vector_control_blocks p) \<and>
           elems (m_free_vector p1) = butlast (elems (m_free_vector p)) \<and>
           (elems (m_free_vector p) \<noteq> [] \<longrightarrow>
              d_resource cb = last (elems (m_free_vector p)) \<and> env w1 = env w \<and>
              allocate_calls w1 = allocate_calls w) \<and>
           (elems (m_free_vector p) = [] \<longrightarrow>
              m_allocate p (env w) = (Some (d_resource cb), env w1) \<and>
              allocate_calls w1 = Suc (allocate_calls w) \<and> h = heap_brk w \<and>
              m_free_vector_control_blocks p1 = m_free_vector_control_blocks p)"
proof (cases "elems (m_free_vector p) = []")
  case True
  from a allocate_miss [OF p True] show ?thesis
    by (auto simp: p True allocate_calls_def split: prod.splits option.splits)
next
  case False
  from a allocate_hit [OF p False] show ?thesis
    by (auto simp: False Let_def vec_pop_back_def allocate_calls_def split: if_splits)
qed

lemma allocate_hit_returns:
  assumes "pools w pr = Some p" "elems (m_free_vector p) \<noteq> []"
  shows "\<exists>h w'. allocate pr w = Inr (h, w')"
  by (simp add: allocate_hit [OF assms] Let_def)

lemma allocate_throw_frame:
  assumes "allocate q w = Inl f"
  shows "f = DanglingPoolAccess \<or>
     (\<exists>e'. f = AllocateThrew (w\<lparr>env := e', trace := trace w @ [AllocateCalled]\<rparr>))"
  using assms
  by (auto simp: allocate_def impl_allocate_def make_handle_def
        SimpleAllocator_allocate_def std_malloc_def Let_def
        split: option.splits if_splits prod.splits)

text \<open>Calls on one pool and on its handles leave every other pool as it is.\<close>

lemma other_pool_untouched:
  "allocate q w = Inr (h, w') \<Longrightarrow> pr \<noteq> q \<Longrightarrow> pools w' pr = pools w pr"
  "free_unused q w = Inr w' \<Longrightarrow> pr \<noteq> q \<Longrightarrow> pools w' pr = pools w pr"
  "drop_handle h w = Inr w' \<Longrightarrow> handles w h = Some cb \<Longrightarrow> d_pool cb \<noteq> pr \<Longrightarrow>
     a_pool cb \<noteq> pr \<Longrightarrow> pools w' pr = pools w pr"
  by (auto simp: op_defs Let_def split: option.splits if_splits prod.splits)

subsection \<open>The copy constructor\<close>

lemma copy_fill_frame:
  "copy_fill n a v w = Inr (v', w') \<Longrightarrow>
     pools w' = pools w \<and> handles w' = handles w \<and> pool_brk w' = pool_brk w \<and>
     heap_brk w' = heap_brk w \<and> allocate_calls w' = allocate_calls w + n \<and>
     length (elems v') = length (elems v) + n \<and> mallocs w' = mallocs w \<and> frees w' = frees w \<and>
     recycled w' = recycled w"
proof (induction n arbitrary: v w)
  case 0
  then show ?case by simp
next
  case (Suc n)
  then show ?case
    by (fastforce simp: allocate_calls_def vec_push_back_def mallocs_def frees_def recycled_def
          split: prod.splits option.splits)
qed

lemma copy_fill_reserved:
  "copy_fill n a v w = Inr (v', w') \<Longrightarrow> length (elems v) + n \<le> reserved v \<Longrightarrow>
     reserved v' = reserved v"
proof (induction n arbitrary: v w)
  case 0
  then show ?case by simp
next
  case (Suc n)
  then show ?case
    by (fastforce simp: vec_push_back_def split: prod.splits option.splits)
qed

lemma copy_fill_throw_frame:
  "copy_fill n a v w = Inl f \<Longrightarrow>
     \<exists>w'. f = AllocateThrew w' \<and> pools w' = pools w \<and> handles w' = handles w \<and>
          pool_brk w' = pool_brk w \<and> heap_brk w' = heap_brk w"
proof (induction n arbitrary: v w)
  case 0
  then show ?case by simp
next
  case (Suc n)
  then show ?case
    by (fastforce split: prod.splits option.splits)
qed

lemma resource_pool_copy_Inr:
  assumes "resource_pool_copy other w = Inr (q, w')" "pools w other = Some p"
  shows "q = pool_brk w \<and> pool_brk w' = Suc (pool_brk w) \<and> handles w' = handles w \<and>
         heap_brk w' = heap_brk w \<and>
         (\<forall>x. x \<noteq> q \<longrightarrow> pools w' x = pools w x) \<and>
         (\<exists>p'. pools w' q = Some p' \<and> m_allocate p' = m_allocate p \<and> m_recycle p' = m_recycle p \<and>
            vec_size (m_free_vector p') = vec_size (m_free_vector p) mod 2 ^ 32 \<and>
            elems (m_free_vector_control_blocks p') = [] \<and>
            reserved (m_free_vector_control_blocks p') = reserved (m_free_vector_control_blocks p) \<and>
            (vec_size (m_free_vector p) \<le> vec_capacity (m_free_vector p) \<longrightarrow>
               reserved (m_free_vector p') = reserved (m_free_vector p))) \<and>
         allocate_calls w' = allocate_calls w + vec_size (m_free_vector p) mod 2 ^ 32"
proof -
  from assms obtain fv w1 where
    cf: "copy_fill (vec_size (m_free_vector p) mod 2 ^ 32) (m_allocate p)
           (vec_reserve (vec_capacity (m_free_vector p)) vec_new) w = Inr (fv, w1)"
    and q: "q = pool_brk w1"
    and w': "w' = w1\<lparr>pools := (pools w1)(pool_brk w1 \<mapsto>
                  \<lparr>m_allocate = m_allocate p, m_recycle = m_recycle p, m_free_vector = fv,
                   m_free_vector_control_blocks =
                     vec_reserve (vec_capacity (m_free_vector_control_blocks p)) vec_new\<rparr>),
                pool_brk := Suc (pool_brk w1)\<rparr>"
    by (auto simp: resource_pool_copy_def impl_copy_def Let_def split: sum.splits prod.splits)
  note fr = copy_fill_frame [OF cf]
  have le: "vec_size (m_free_vector p) mod 2 ^ 32 \<le> vec_size (m_free_vector p)"
    by simp
  have res: "vec_size (m_free_vector p) \<le> vec_capacity (m_free_vector p) \<Longrightarrow>
       reserved fv = reserved (m_free_vector p)"
    using copy_fill_reserved [OF cf] le by (simp add: vec_size_def vec_capacity_def)
  show ?thesis
    using fr res by (simp add: q w' vec_size_def vec_capacity_def allocate_calls_def)
qed

lemma resource_pool_copy_Inl:
  assumes "resource_pool_copy other w = Inl f"
  shows "f = DanglingPoolAccess \<or>
         (\<exists>w'. f = AllocateThrew w' \<and> pools w' = pools w \<and> handles w' = handles w \<and>
            pool_brk w' = pool_brk w \<and> heap_brk w' = heap_brk w)"
  using assms copy_fill_throw_frame
  by (fastforce simp: resource_pool_copy_def impl_copy_def Let_def split: option.splits sum.splits prod.splits)

text \<open>
  Below \<open>2 ^ 32\<close> idle resources the copy constructor calls the allocation function once per
  idle resource of the original, the copy has as many idle resources as the original, and the
  original and all handles are untouched. At \<open>2 ^ 32\<close> the count wraps around to 0.
\<close>

lemma resource_pool_copy_small:
  assumes "pools w pr = Some p" "vec_size (m_free_vector p) < 2 ^ 32" "pr < pool_brk w"
    and "resource_pool_copy pr w = Inr (q, w')"
  shows "unused_resources q w' = unused_resources pr w \<and>
         allocate_calls w' = allocate_calls w + vec_size (m_free_vector p) \<and>
         pools w' pr = pools w pr \<and> handles w' = handles w"
  using resource_pool_copy_Inr [OF assms(4) assms(1)] assms(1,2,3)
  by (auto simp: unused_resources_def impl_unused_resources_def)

lemma resource_pool_copy_wraps:
  assumes "pools w pr = Some p" "vec_size (m_free_vector p) = 2 ^ 32"
  shows "\<exists>q w'. resource_pool_copy pr w = Inr (q, w') \<and> unused_resources q w' = Inr 0 \<and>
           allocate_calls w' = allocate_calls w"
  using assms
  by (simp add: resource_pool_copy_def impl_copy_def unused_resources_def
        impl_unused_resources_def vec_size_def allocate_calls_def)

subsection \<open>Runs of \<open>allocate()\<close> and of drops\<close>

lemma recycled_append [simp]:
  "recycled (w\<lparr>trace := t\<rparr>) = concat (map (\<lambda>e. case e of RecycleCalled r \<Rightarrow> [r] | _ \<Rightarrow> []) t)"
  by (simp add: recycled_def)

lemma drop_all_sole:
  assumes "pools w pr = Some p" "distinct hs" "list_all2 (sole_handle pr w) hs rs"
  shows "\<exists>w' p'. drop_all hs w = Inr w' \<and> pools w' pr = Some p' \<and>
     m_recycle p' = m_recycle p \<and> m_allocate p' = m_allocate p \<and>
     reserved (m_free_vector p') = reserved (m_free_vector p) \<and>
     elems (m_free_vector p') = elems (m_free_vector p)
        @ take (reserved (m_free_vector p) - length (elems (m_free_vector p))) rs \<and>
     recycled w' = recycled w @ (case m_recycle p of Some f \<Rightarrow> rs | None \<Rightarrow> []) \<and>
     env w' = (case m_recycle p of Some f \<Rightarrow> fold f rs (env w) | None \<Rightarrow> env w) \<and>
     allocate_calls w' = allocate_calls w \<and>
     (\<forall>h. h \<notin> set hs \<longrightarrow> handles w' h = handles w h)"
  using assms
proof (induction hs arbitrary: w p rs)
  case Nil
  then show ?case by (cases "m_recycle p") simp_all
next
  case (Cons h hs)
  from Cons.prems(3) obtain r rs' where rs: "rs = r # rs'"
    and s: "sole_handle pr w h r" and l: "list_all2 (sole_handle pr w) hs rs'"
    by (auto simp: list_all2_Cons1)
  from s obtain cb where cb: "handles w h = Some cb" "use_count cb = 1" "d_pool cb = pr"
    "a_pool cb = d_pool cb" "d_resource cb = r"
    by (auto simp: sole_handle_def split: option.splits)
  from Cons.prems(1) cb have pd: "pools w (d_pool cb) = Some p" by simp
  define p1 where "p1 = (if weak_count cb = 0 then recycled_impl h r p else pushed_impl r p)"
  define w1 where "w1 = w\<lparr>handles := (if weak_count cb = 0 then (handles w)(h := None)
                     else (handles w)(h \<mapsto> cb\<lparr>use_count := 0\<rparr>)),
        pools := (pools w)(d_pool cb \<mapsto> p1),
        env := (case m_recycle p of Some f \<Rightarrow> f (d_resource cb) (env w) | None \<Rightarrow> env w),
        trace := trace w
             @ (case m_recycle p of Some f \<Rightarrow> [RecycleCalled (d_resource cb)] | None \<Rightarrow> [])
             @ [if vec_size (m_free_vector p) < vec_capacity (m_free_vector p)
                then Recycled (d_resource cb) else Freed (d_resource cb)]
             @ (if weak_count cb = 0 \<and> \<not> vec_size (m_free_vector_control_blocks p)
                     < vec_capacity (m_free_vector_control_blocks p) then [Free h] else [])\<rparr>"
  have d: "drop_handle h w = Inr w1"
    unfolding w1_def p1_def cb(5) [symmetric]
    by (rule drop_handle_last [OF cb(1) cb(2) pd cb(4)])
  have pw1: "pools w1 pr = Some p1"
    by (simp add: w1_def cb)
  have "list_all2 (sole_handle pr w1) hs rs'"
    using l
  proof (rule list.rel_mono_strong)
    fix h' r' assume "h' \<in> set hs" "sole_handle pr w h' r'"
    with Cons.prems(2) show "sole_handle pr w1 h' r'"
      by (auto simp: sole_handle_def w1_def)
  qed
  with Cons.IH [OF pw1] Cons.prems(2) obtain w' p' where
    ih: "drop_all hs w1 = Inr w'" "pools w' pr = Some p'"
      "m_recycle p' = m_recycle p1"
      "m_allocate p' = m_allocate p1"
      "reserved (m_free_vector p') = reserved (m_free_vector p1)"
      "elems (m_free_vector p') = elems (m_free_vector p1)
        @ take (reserved (m_free_vector p1) - length (elems (m_free_vector p1))) rs'"
      "recycled w' = recycled w1 @ (case m_recycle p1 of Some f \<Rightarrow> rs' | None \<Rightarrow> [])"
      "env w' = (case m_recycle p1 of Some f \<Rightarrow> fold f rs' (env w1) | None \<Rightarrow> env w1)"
      "allocate_calls w' = allocate_calls w1"
      "\<forall>h. h \<notin> set hs \<longrightarrow> handles w' h = handles w1 h"
    by auto blast
  have ri: "m_recycle p1 = m_recycle p" "m_allocate p1 = m_allocate p"
    "reserved (m_free_vector p1) = reserved (m_free_vector p)"
    "elems (m_free_vector p1) =
       (if length (elems (m_free_vector p)) < reserved (m_free_vector p)
        then elems (m_free_vector p) @ [r] else elems (m_free_vector p))"
    by (simp_all add: p1_def recycled_impl_def pushed_impl_def vec_defs)
  have el: "elems (m_free_vector p') = elems (m_free_vector p)
        @ take (reserved (m_free_vector p) - length (elems (m_free_vector p))) rs"
    using ih(6) by (auto simp: ri rs take_Cons' Suc_diff_Suc)
  have w1f: "recycled w1 = recycled w @ (case m_recycle p of Some f \<Rightarrow> [r] | None \<Rightarrow> [])"
    "allocate_calls w1 = allocate_calls w"
    "env w1 = (case m_recycle p of Some f \<Rightarrow> f r (env w) | None \<Rightarrow> env w)"
    by (cases "m_recycle p"; simp add: w1_def recycled_def allocate_calls_def cb)+
  have hf: "\<forall>x. x \<notin> set (h # hs) \<longrightarrow> handles w' x = handles w x"
    using ih(10) by (simp add: w1_def)
  show ?case
    using d ih(1-5,7-9) el w1f hf by (cases "m_recycle p") (simp_all add: ri rs)
qed

lemma ex_list_all2:
  "(\<forall>x\<in>set xs. \<exists>y. P x y) \<Longrightarrow> \<exists>ys. list_all2 P xs ys"
proof (induction xs)
  case Nil
  then show ?case by simp
next
  case (Cons x xs)
  then obtain y ys where "P x y" "list_all2 P xs ys" by auto
  then have "list_all2 P (x # xs) (y # ys)" by simp
  then show ?case ..
qed

lemma allocate_n_fresh:
  assumes "pools w pr = Some p" "elems (m_free_vector p) = []" "allocate_n n pr w = Inr (hs, w1)"
  shows "hs = [heap_brk w ..< heap_brk w + n] \<and> pools w1 = pools w \<and>
         heap_brk w1 = heap_brk w + n \<and>
         (\<forall>h. h < heap_brk w \<longrightarrow> handles w1 h = handles w h) \<and>
         (\<forall>h\<in>set hs. \<exists>r. sole_handle pr w1 h r) \<and>
         allocate_calls w1 = allocate_calls w + n"
  using assms
proof (induction n arbitrary: w hs)
  case 0
  then show ?case by simp
next
  case (Suc n)
  from Suc.prems(3) obtain h w' hs' where
    a: "allocate pr w = Inr (h, w')" and n: "allocate_n n pr w' = Inr (hs', w1)"
    and hs: "hs = h # hs'"
    by (auto split: sum.splits prod.splits)
  from allocate_Inr [OF Suc.prems(1) a] Suc.prems(2) obtain cb p1 where
    cb: "handles w' h = Some cb" "use_count cb = 1" "d_pool cb = pr" "a_pool cb = pr"
    and h: "h = heap_brk w" and c: "allocate_calls w' = Suc (allocate_calls w)"
    by auto
  from a allocate_miss [OF Suc.prems(1) Suc.prems(2)]
  have w': "pools w' = pools w" "heap_brk w' = Suc (heap_brk w)"
    "\<forall>x. x \<noteq> h \<longrightarrow> handles w' x = handles w x"
    by (auto simp: h split: prod.splits option.splits)
  from Suc.prems(1) w' have p': "pools w' pr = Some p" by simp
  from Suc.IH [OF p' Suc.prems(2) n]
  have ih: "hs' = [heap_brk w' ..< heap_brk w' + n]" "pools w1 = pools w'"
    "heap_brk w1 = heap_brk w' + n" "\<forall>x. x < heap_brk w' \<longrightarrow> handles w1 x = handles w' x"
    "\<forall>x\<in>set hs'. \<exists>r. sole_handle pr w1 x r" "allocate_calls w1 = allocate_calls w' + n"
    by auto
  have "handles w1 h = Some cb"
    using ih(4) w'(2) cb(1) h by simp
  then have sh: "sole_handle pr w1 h (d_resource cb)"
    using cb by (simp add: sole_handle_def)
  have 1: "hs = [heap_brk w ..< heap_brk w + Suc n]"
    using hs h ih(1) w'(2) by (simp add: upt_conv_Cons)
  have 2: "\<forall>x. x < heap_brk w \<longrightarrow> handles w1 x = handles w x"
    using ih(4) w'(2,3) h by auto
  have 3: "\<forall>x\<in>set hs. \<exists>r. sole_handle pr w1 x r"
    unfolding hs using sh ih(5) by auto
  have 4: "pools w1 = pools w" "heap_brk w1 = heap_brk w + Suc n"
    "allocate_calls w1 = allocate_calls w + Suc n"
    using ih(2,3,6) w'(1,2) c by simp_all
  from 1 2 3 4 show ?case by blast
qed

lemma allocate_n_returns:
  assumes "pools w pr = Some p" "elems (m_free_vector p) = []"
    and "\<forall>e. fst (m_allocate p e) \<noteq> None"
  shows "\<exists>hs w1. allocate_n n pr w = Inr (hs, w1)"
  using assms
proof (induction n arbitrary: w)
  case 0
  then show ?case by simp
next
  case (Suc n)
  from Suc.prems(3) obtain r e' where m: "m_allocate p (env w) = (Some r, e')"
    by (metis fst_conv option.exhaust surj_pair)
  from allocate_miss [OF Suc.prems(1,2)] m obtain h w' where
    a: "allocate pr w = Inr (h, w')" and p': "pools w' pr = Some p"
    by (simp add: Suc.prems(1))
  from Suc.IH [OF p' Suc.prems(2,3)] a show ?case
    by auto
qed

lemma drop_all_after_allocate_n:
  assumes p: "pools w pr = Some p" and e: "elems (m_free_vector p) = []"
    and a: "allocate_n n pr w = Inr (hs, w1)"
    and s: "set ds = set hs" and d: "distinct ds"
  shows "\<exists>w2 p2. drop_all ds w1 = Inr w2 \<and> pools w2 pr = Some p2 \<and>
           vec_size (m_free_vector p2) = min n (vec_capacity (m_free_vector p)) \<and>
           m_allocate p2 = m_allocate p"
proof -
  note fr = allocate_n_fresh [OF p e a]
  from fr have p1: "pools w1 pr = Some p" using p by simp
  from fr have "distinct hs" "length hs = n" by auto
  with s d have len: "length ds = n"
    by (metis distinct_card)
  from fr s have "\<forall>h\<in>set ds. \<exists>r. sole_handle pr w1 h r" by simp
  then obtain rs where rs: "list_all2 (sole_handle pr w1) ds rs"
    using ex_list_all2 by blast
  then have lr: "length rs = n" using len by (simp add: list_all2_lengthD)
  from drop_all_sole [OF p1 d rs] obtain w2 p2 where
    "drop_all ds w1 = Inr w2" "pools w2 pr = Some p2" "m_allocate p2 = m_allocate p"
    "elems (m_free_vector p2) = elems (m_free_vector p)
        @ take (reserved (m_free_vector p) - length (elems (m_free_vector p))) rs"
    by blast
  then show ?thesis
    using e lr by (auto simp: vec_size_def vec_capacity_def min_def)
qed

lemma allocate_resources_pops:
  assumes "pools w pr = Some p" "elems (m_free_vector p) = xs @ ys"
  shows "\<exists>w' p'. allocate_resources (length ys) pr w = Inr (rev ys, w') \<and>
           pools w' pr = Some p' \<and> elems (m_free_vector p') = xs \<and>
           allocate_calls w' = allocate_calls w \<and> env w' = env w"
  using assms
proof (induction ys arbitrary: w p rule: rev_induct)
  case Nil
  then show ?case by simp
next
  case (snoc y ys)
  from snoc.prems have ne: "elems (m_free_vector p) \<noteq> []" by simp
  from allocate_hit_returns [OF snoc.prems(1) ne] obtain h w1 where
    a: "allocate pr w = Inr (h, w1)" by blast
  from allocate_Inr [OF snoc.prems(1) a] ne snoc.prems(2) obtain cb p1 where
    cb: "handles w1 h = Some cb" "d_resource cb = y" "use_count cb = 1"
    and p1: "pools w1 pr = Some p1" "elems (m_free_vector p1) = xs @ ys"
    and fr: "env w1 = env w" "allocate_calls w1 = allocate_calls w"
    by (auto simp: butlast_append)
  from snoc.IH [OF p1] obtain w' p' where
    "allocate_resources (length ys) pr w1 = Inr (rev ys, w')" "pools w' pr = Some p'"
    "elems (m_free_vector p') = xs" "allocate_calls w' = allocate_calls w1" "env w' = env w1"
    by blast
  then show ?case
    using a cb fr by (simp add: handle_get_def)
qed

subsection \<open>The capacity invariant\<close>

lemma pool_bounded_push_fv:
  "pool_bounded c p \<Longrightarrow> vec_size (m_free_vector p) < vec_capacity (m_free_vector p) \<Longrightarrow>
     pool_bounded c (p\<lparr>m_free_vector := vec_push_back r (m_free_vector p)\<rparr>)"
  by (auto simp: pool_bounded_def vec_defs)

lemma pool_bounded_push_cb:
  "pool_bounded c p \<Longrightarrow>
     vec_size (m_free_vector_control_blocks p) < vec_capacity (m_free_vector_control_blocks p) \<Longrightarrow>
     pool_bounded c (p\<lparr>m_free_vector_control_blocks :=
        vec_push_back h (m_free_vector_control_blocks p)\<rparr>)"
  by (auto simp: pool_bounded_def vec_defs)

lemma pool_bounded_pop:
  "pool_bounded c p \<Longrightarrow> pool_bounded c (p\<lparr>m_free_vector := vec_pop_back (m_free_vector p)\<rparr>)"
  "pool_bounded c p \<Longrightarrow> pool_bounded c (p\<lparr>m_free_vector_control_blocks :=
        vec_pop_back (m_free_vector_control_blocks p)\<rparr>)"
  "pool_bounded c p \<Longrightarrow> pool_bounded c (p\<lparr>m_free_vector := vec_clear (m_free_vector p),
        m_free_vector_control_blocks := vec_clear (m_free_vector_control_blocks p)\<rparr>)"
  by (auto simp: pool_bounded_def vec_defs)

lemma impl_recycle_bounded:
  assumes "bounded_at c pr w" "pools w q = Some p"
  shows "bounded_at c pr (impl_recycle q p r w)"
  using assms
  by (auto simp: bounded_at_def impl_recycle_def Let_def pool_bounded_push_fv
        split: option.splits)

lemma deallocate_bounded:
  assumes "bounded_at c pr w" "SimpleAllocator_deallocate q h w = Inr w'"
  shows "bounded_at c pr w'"
  using assms
  by (auto simp: bounded_at_def SimpleAllocator_deallocate_def std_free_def pool_bounded_push_cb
        split: option.splits if_splits)

lemma drop_handle_bounded:
  assumes "bounded_at c pr w" "drop_handle h w = Inr w'"
  shows "bounded_at c pr w'"
proof (cases "handles w h")
  case None
  with assms show ?thesis by (simp add: drop_handle_def)
next
  case (Some cb)
  have b: "bounded_at c pr (deleter_call cb w)"
    using assms(1) by (auto simp: deleter_call_def impl_recycle_bounded split: option.splits)
  then have b': "bounded_at c pr ((deleter_call cb w)\<lparr>handles := hs\<rparr>)" for hs
    by (simp add: bounded_at_def)
  consider "use_count cb = 0" | "use_count cb > 1" | "use_count cb = 1" "weak_count cb > 0"
    | "use_count cb = 1" "weak_count cb = 0"
    by atomize_elim arith
  then show ?thesis
  proof cases
    case 1
    with assms Some show ?thesis by (simp add: drop_handle_def)
  next
    case 2
    with assms Some show ?thesis by (auto simp: drop_handle_def bounded_at_def)
  next
    case 3
    with assms(2) Some b' show ?thesis by (auto simp: drop_handle_def Let_def)
  next
    case 4
    with assms(2) Some have "SimpleAllocator_deallocate (a_pool cb) h
        ((deleter_call cb w)\<lparr>handles := (handles (deleter_call cb w))(h := None)\<rparr>) = Inr w'"
      by (simp add: drop_handle_def Let_def)
    with b' show ?thesis by (rule deallocate_bounded)
  qed
qed

lemma drop_weak_bounded:
  assumes "bounded_at c pr w" "drop_weak h w = Inr w'"
  shows "bounded_at c pr w'"
proof (cases "handles w h")
  case None
  with assms show ?thesis by (simp add: drop_weak_def)
next
  case (Some cb)
  have b': "bounded_at c pr (w\<lparr>handles := hs\<rparr>)" for hs
    using assms(1) by (simp add: bounded_at_def)
  consider "weak_count cb = 0" | "weak_count cb \<noteq> 0" "weak_count cb > 1 \<or> use_count cb > 0"
    | "weak_count cb = 1" "use_count cb = 0"
    by atomize_elim arith
  then show ?thesis
  proof cases
    case 1
    with assms(2) Some show ?thesis by (simp add: drop_weak_def)
  next
    case 2
    with assms(2) Some b' show ?thesis by (auto simp: drop_weak_def)
  next
    case 3
    with assms(2) Some have "SimpleAllocator_deallocate (a_pool cb) h
        (w\<lparr>handles := (handles w)(h := None)\<rparr>) = Inr w'"
      by (simp add: drop_weak_def)
    with b' show ?thesis by (rule deallocate_bounded)
  qed
qed

lemma allocate_bounded:
  assumes "bounded_at c pr w" "allocate q w = Inr (h, w')"
  shows "bounded_at c pr w'"
  using assms
  by (auto simp: bounded_at_def allocate_def impl_allocate_def make_handle_def
        SimpleAllocator_allocate_def std_malloc_def Let_def pool_bounded_def vec_defs
        split: option.splits if_splits prod.splits)

lemma perform_bounded:
  assumes "bounded_at c pr w" "perform a w = Inr w'"
  shows "bounded_at c pr w'"
proof (cases a)
  case (Construct al re n)
  with assms show ?thesis
    by (auto simp: bounded_at_def resource_pool_new_def)
next
  case (CopyPool q)
  show ?thesis
  proof (cases "resource_pool_copy q w")
    case (Inl f)
    with assms CopyPool resource_pool_copy_Inl [OF Inl] show ?thesis
      by (auto simp: bounded_at_def)
  next
    case (Inr qw)
    obtain q' w1 where qw: "qw = (q', w1)" by (cases qw)
    from Inr qw obtain p where p: "pools w q = Some p"
      by (auto simp: resource_pool_copy_def split: option.splits)
    from assms CopyPool Inr qw resource_pool_copy_Inr [OF Inr [unfolded qw] p] show ?thesis
      by (auto simp: bounded_at_def)
  qed
next
  case (DestroyPool q)
  with assms show ?thesis
    by (auto simp: bounded_at_def resource_pool_destroy_def release_all_def
          split: option.splits if_splits)
next
  case (Allocate q)
  show ?thesis
  proof (cases "allocate q w")
    case (Inl f)
    with assms Allocate allocate_throw_frame [OF Inl] show ?thesis
      by (auto simp: bounded_at_def)
  next
    case (Inr hw)
    with assms Allocate allocate_bounded [of c pr w q "fst hw" "snd hw"] show ?thesis
      by auto
  qed
next
  case (FreeUnused q)
  with assms show ?thesis
    by (auto simp: bounded_at_def free_unused_def impl_free_unused_def release_all_def
          pool_bounded_pop split: option.splits if_splits)
next
  case (CopyHandle h)
  with assms show ?thesis
    by (auto simp: bounded_at_def copy_handle_def split: option.splits if_splits)
next
  case (DropHandle h)
  with assms drop_handle_bounded show ?thesis by auto
next
  case (WeakHandle h)
  with assms show ?thesis
    by (auto simp: bounded_at_def weak_handle_def split: option.splits)
next
  case (DropWeak h)
  with assms drop_weak_bounded show ?thesis by auto
qed

lemma run_bounded:
  "bounded_at c pr w \<Longrightarrow> run acts w = Inr w' \<Longrightarrow> bounded_at c pr w'"
proof (induction acts arbitrary: w)
  case Nil
  then show ?case by simp
next
  case (Cons a acts)
  then show ?case
    by (auto split: sum.splits dest: perform_bounded)
qed

subsection \<open>The cache never holds more than the free list\<close>

lemma pool_paired_recycled:
  "pool_paired p \<Longrightarrow> pool_paired (recycled_impl h r p)"
  by (auto simp: pool_paired_def recycled_impl_def vec_defs)

lemma paired_step:
  assumes "paired w"
    and "\<And>q p'. pools w' q = Some p' \<Longrightarrow> pools w q = Some p' \<or> pool_paired p'"
    and "\<And>h cb. handles w' h = Some cb \<Longrightarrow>
           handles w h = Some cb \<or> a_pool cb = d_pool cb \<and> weak_count cb = 0 \<and> 0 < use_count cb"
  shows "paired w'"
  unfolding paired_def
proof (intro conjI allI impI)
  fix q p' assume "pools w' q = Some p'"
  from assms(2) [OF this] assms(1) show "pool_paired p'"
    by (auto simp: paired_def)
next
  fix h cb assume h: "handles w' h = Some cb"
  from assms(3) [OF h] assms(1) show "a_pool cb = d_pool cb"
    by (auto simp: paired_def)
  from assms(3) [OF h] assms(1) show "weak_count cb = 0"
    by (auto simp: paired_def)
  from assms(3) [OF h] assms(1) show "0 < use_count cb"
    by (auto simp: paired_def)
qed

lemma drop_handle_paired:
  assumes "paired w" "drop_handle h w = Inr w'"
  shows "paired w'"
proof (cases "handles w h")
  case None
  with assms show ?thesis by (simp add: drop_handle_def)
next
  case (Some cb)
  from assms(1) Some have a: "a_pool cb = d_pool cb" and k: "weak_count cb = 0"
    by (simp_all add: paired_def)
  show ?thesis
  proof (cases "use_count cb > 1")
    case True
    with assms Some a k show ?thesis
      by (auto simp: drop_handle_shared intro!: paired_step [OF assms(1)] split: if_splits)
  next
    case False
    with assms(2) Some have u: "use_count cb = 1"
      by (cases "use_count cb") (auto simp: drop_handle_def)
    show ?thesis
    proof (cases "pools w (d_pool cb)")
      case None
      with assms(2) Some u a k show ?thesis
        by (simp add: drop_handle_def deleter_call_def SimpleAllocator_deallocate_def Let_def)
    next
      case (Some p)
      from assms(1) Some have "pool_paired p" by (simp add: paired_def)
      then have "pool_paired (recycled_impl h (d_resource cb) p)"
        by (rule pool_paired_recycled)
      with assms k drop_handle_last [OF \<open>handles w h = Some cb\<close> u Some a] show ?thesis
        by (auto intro!: paired_step [OF assms(1)] split: if_splits)
    qed
  qed
qed

lemma allocate_paired:
  assumes "paired w" "allocate q w = Inr (h, w')"
  shows "paired w'"
proof (cases "pools w q")
  case None
  with assms show ?thesis by (simp add: allocate_def impl_allocate_def)
next
  case (Some p)
  from assms(1) Some have pp: "pool_paired p" by (simp add: paired_def)
  show ?thesis
  proof (cases "elems (m_free_vector p) = []")
    case True
    from assms allocate_miss [OF Some True] show ?thesis
      by (auto intro!: paired_step [OF assms(1)] split: prod.splits option.splits if_splits)
  next
    case False
    from pp have "pool_paired (p\<lparr>m_free_vector := vec_pop_back (m_free_vector p)\<rparr>)"
      if "elems (m_free_vector_control_blocks p) = []"
      using that by (auto simp: pool_paired_def vec_defs)
    moreover from pp False have "pool_paired (p\<lparr>m_free_vector := vec_pop_back (m_free_vector p),
        m_free_vector_control_blocks := vec_pop_back (m_free_vector_control_blocks p)\<rparr>)"
      by (auto simp: pool_paired_def vec_defs)
    ultimately show ?thesis
      using assms allocate_hit [OF Some False]
      by (auto simp: Let_def intro!: paired_step [OF assms(1)] split: if_splits)
  qed
qed

lemma perform_paired:
  assumes "paired w" "perform a w = Inr w'" "strong_only a"
  shows "paired w'"
proof (cases a)
  case (Construct al re n)
  with assms show ?thesis
    by (auto simp: resource_pool_new_def impl_new_def pool_paired_def
          vec_size_def vec_capacity_def intro!: paired_step [OF assms(1)] split: if_splits)
next
  case (CopyPool q)
  show ?thesis
  proof (cases "resource_pool_copy q w")
    case (Inl f)
    with assms CopyPool resource_pool_copy_Inl [OF Inl] show ?thesis
      by (auto intro!: paired_step [OF assms(1)])
  next
    case (Inr qw)
    obtain q' w1 where qw: "qw = (q', w1)" by (cases qw)
    from Inr qw obtain p where p: "pools w q = Some p"
      by (auto simp: resource_pool_copy_def split: option.splits)
    from assms(1) p have pp: "pool_paired p" by (simp add: paired_def)
    have le: "vec_size (m_free_vector p) mod 2 ^ 32 \<le> vec_size (m_free_vector p)"
      by simp
    from resource_pool_copy_Inr [OF Inr [unfolded qw] p] obtain p' where
      fr: "handles w1 = handles w" "\<forall>x. x \<noteq> q' \<longrightarrow> pools w1 x = pools w x"
      and p': "pools w1 q' = Some p'"
        "vec_size (m_free_vector p') = vec_size (m_free_vector p) mod 2 ^ 32"
        "elems (m_free_vector_control_blocks p') = []"
        "reserved (m_free_vector_control_blocks p') = reserved (m_free_vector_control_blocks p)"
        "vec_size (m_free_vector p) \<le> vec_capacity (m_free_vector p) \<longrightarrow>
               reserved (m_free_vector p') = reserved (m_free_vector p)"
      by blast
    have "pool_paired p'"
      using pp p' le by (auto simp: pool_paired_def vec_size_def vec_capacity_def)
    moreover have "w' = w1"
      using assms(2) CopyPool Inr qw by simp
    ultimately show ?thesis
      using fr p' (1) by (intro paired_step [OF assms(1)]) (auto, metis option.inject)
  qed
next
  case (DestroyPool q)
  with assms show ?thesis
    by (auto simp: resource_pool_destroy_def release_all_def
          intro!: paired_step [OF assms(1)] split: option.splits if_splits)
next
  case (Allocate q)
  show ?thesis
  proof (cases "allocate q w")
    case (Inl f)
    with assms Allocate allocate_throw_frame [OF Inl] show ?thesis
      by (auto intro!: paired_step [OF assms(1)])
  next
    case (Inr hw)
    with assms Allocate allocate_paired [of w q "fst hw" "snd hw"] show ?thesis
      by auto
  qed
next
  case (FreeUnused q)
  show ?thesis
  proof (cases "pools w q")
    case None
    with assms FreeUnused show ?thesis
      by (simp add: free_unused_def impl_free_unused_def)
  next
    case (Some p)
    with assms(1) have "pool_paired p" by (simp add: paired_def)
    then have "pool_paired (p\<lparr>m_free_vector := vec_clear (m_free_vector p),
        m_free_vector_control_blocks := vec_clear (m_free_vector_control_blocks p)\<rparr>)"
      by (simp add: pool_paired_def vec_defs)
    with assms FreeUnused Some show ?thesis
      by (auto simp: free_unused_def impl_free_unused_def release_all_def
            intro!: paired_step [OF assms(1)] split: if_splits)
  qed
next
  case (CopyHandle h)
  with assms show ?thesis
    by (auto simp: paired_def copy_handle_def split: option.splits if_splits)
next
  case (DropHandle h)
  with assms drop_handle_paired show ?thesis by auto
next
  case (WeakHandle h)
  with assms(3) show ?thesis by simp
next
  case (DropWeak h)
  with assms(3) show ?thesis by simp
qed

lemma run_paired:
  "paired w \<Longrightarrow> list_all strong_only acts \<Longrightarrow> run acts w = Inr w' \<Longrightarrow> paired w'"
proof (induction acts arbitrary: w)
  case Nil
  then show ?case by simp
next
  case (Cons a acts)
  then show ?case
    by (auto split: sum.splits dest: perform_paired)
qed

lemma paired_start: "paired (start e)"
  by (simp add: paired_def start_def)

subsection \<open>The record of releases is the expected one\<close>

text \<open>
  Each operation adds to the record of releases exactly the events expected of it, keeps the
  functions of the live cores, and changes a counter of recycle calls by the number of calls it
  is expected to make. So do whole client programs.
\<close>

lemma release_log_simps [simp]:
  "release_log (w\<lparr>trace := t\<rparr>) =
     filter (\<lambda>e. case e of RecycleCalled r \<Rightarrow> True | Recycled r \<Rightarrow> True | Freed r \<Rightarrow> True
                  | _ \<Rightarrow> False) t"
  "release_log (w\<lparr>pools := ps\<rparr>) = release_log w"
  "release_log (w\<lparr>handles := hs\<rparr>) = release_log w"
  "release_log (w\<lparr>env := e\<rparr>) = release_log w"
  "release_log (w\<lparr>heap_brk := b\<rparr>) = release_log w"
  "release_log (w\<lparr>pool_brk := b\<rparr>) = release_log w"
  by (simp_all add: release_log_def)

lemma calls_in_simps [simp]:
  "calls_in [] = []"
  "calls_in (RecycleCalled r # evs) = r # calls_in evs"
  "calls_in (Recycled r # evs) = calls_in evs"
  "calls_in (Freed r # evs) = calls_in evs"
  "calls_in (evs @ evs') = calls_in evs @ calls_in evs'"
  by (simp_all add: calls_in_def)

lemma counted_same:
  "counted cnt w \<Longrightarrow> same_functions w w' \<Longrightarrow> counted cnt w'"
  unfolding counted_def same_functions_def counts_recycles_def by metis

lemma same_functions_fields [simp]:
  "same_functions w (w\<lparr>trace := t\<rparr>)" "same_functions w (w\<lparr>env := e\<rparr>)"
  "same_functions w (w\<lparr>handles := hs\<rparr>)" "same_functions w (w\<lparr>env := e, trace := t\<rparr>)"
  "same_functions w w"
  by (simp_all add: same_functions_def)

lemma drop_handle_release:
  assumes "drop_handle h w = Inr w'"
  shows "release_log w' = release_log w @ expected_release_events (DropHandle h) w"
    and "same_functions w w'"
    and "counted cnt w \<Longrightarrow>
           cnt (env w') = cnt (env w) + length (calls_in (expected_release_events (DropHandle h) w))"
  using assms
  by (auto simp: drop_handle_def deleter_call_def impl_recycle_def SimpleAllocator_deallocate_def
        std_free_def release_log_def same_functions_def counted_def counts_recycles_def Let_def
        split: option.splits if_splits)

lemma drop_weak_release:
  assumes "drop_weak h w = Inr w'"
  shows "release_log w' = release_log w" and "same_functions w w'" and "env w' = env w"
  using assms
  by (auto simp: drop_weak_def SimpleAllocator_deallocate_def std_free_def release_log_def
        same_functions_def split: option.splits if_splits)

lemma allocate_release:
  assumes "allocate q w = Inr (h, w')"
  shows "release_log w' = release_log w" and "same_functions w w'"
    and "counted cnt w \<Longrightarrow> cnt (env w') = cnt (env w)"
  using assms
  by (auto simp: allocate_def impl_allocate_def make_handle_def SimpleAllocator_allocate_def
        std_malloc_def release_log_def same_functions_def counted_def counts_recycles_def Let_def
        split: option.splits if_splits prod.splits; metis snd_conv)+

lemma allocate_throw_release:
  assumes "allocate q w = Inl (AllocateThrew w')"
  shows "release_log w' = release_log w" and "same_functions w w'"
    and "counted cnt w \<Longrightarrow> cnt (env w') = cnt (env w)"
  using assms
  by (auto simp: allocate_def impl_allocate_def make_handle_def SimpleAllocator_allocate_def
        std_malloc_def release_log_def same_functions_def counted_def counts_recycles_def Let_def
        split: option.splits if_splits prod.splits; metis snd_conv)+

lemma copy_fill_release:
  "copy_fill n a v w = Inr (v', w') \<Longrightarrow>
     release_log w' = release_log w \<and> pools w' = pools w \<and>
     ((\<forall>e. cnt (snd (a e)) = cnt e) \<longrightarrow> cnt (env w') = cnt (env w))"
proof (induction n arbitrary: v w)
  case 0
  then show ?case by simp
next
  case (Suc n)
  obtain x e' where ae: "a (env w) = (x, e')" by (cases "a (env w)")
  with Suc.prems obtain r where x: "x = Some r"
    by (cases x) auto
  define w1 where "w1 = w\<lparr>env := e', trace := trace w @ [AllocateCalled]\<rparr>"
  from Suc.prems ae x have "copy_fill n a (vec_push_back r v) w1 = Inr (v', w')"
    by (simp add: w1_def)
  from Suc.IH [OF this] have "release_log w' = release_log w1" "pools w' = pools w1"
    "(\<forall>e. cnt (snd (a e)) = cnt e) \<longrightarrow> cnt (env w') = cnt (env w1)"
    by simp_all
  moreover have "release_log w1 = release_log w" "pools w1 = pools w" "env w1 = snd (a (env w))"
    by (simp_all add: w1_def release_log_def ae)
  ultimately show ?case by simp
qed

lemma copy_fill_throw_release:
  "copy_fill n a v w = Inl f \<Longrightarrow>
     \<exists>w'. f = AllocateThrew w' \<and> release_log w' = release_log w \<and> pools w' = pools w \<and>
       ((\<forall>e. cnt (snd (a e)) = cnt e) \<longrightarrow> cnt (env w') = cnt (env w))"
proof (induction n arbitrary: v w)
  case 0
  then show ?case by simp
next
  case (Suc n)
  obtain x e' where ae: "a (env w) = (x, e')" by (cases "a (env w)")
  define w1 where "w1 = w\<lparr>env := e', trace := trace w @ [AllocateCalled]\<rparr>"
  have w1: "release_log w1 = release_log w" "pools w1 = pools w" "env w1 = snd (a (env w))"
    by (simp_all add: w1_def release_log_def ae)
  show ?case
  proof (cases x)
    case None
    with Suc.prems ae have "f = AllocateThrew w1" by (simp add: w1_def)
    with w1 show ?thesis by simp
  next
    case (Some r)
    with Suc.prems ae have "copy_fill n a (vec_push_back r v) w1 = Inl f"
      by (simp add: w1_def)
    from Suc.IH [OF this] w1 show ?thesis by auto
  qed
qed

lemma resource_pool_copy_release:
  assumes "resource_pool_copy q w = Inr (q', w')"
  shows "release_log w' = release_log w"
    and "counted cnt w \<Longrightarrow> counted cnt w' \<and> cnt (env w') = cnt (env w)"
proof -
  from assms obtain p fv w1 where p: "pools w q = Some p"
    and cf: "copy_fill (vec_size (m_free_vector p) mod 2 ^ 32) (m_allocate p)
           (vec_reserve (vec_capacity (m_free_vector p)) vec_new) w = Inr (fv, w1)"
    and w': "w' = w1\<lparr>pools := (pools w1)(pool_brk w1 \<mapsto>
                  \<lparr>m_allocate = m_allocate p, m_recycle = m_recycle p, m_free_vector = fv,
                   m_free_vector_control_blocks =
                     vec_reserve (vec_capacity (m_free_vector_control_blocks p)) vec_new\<rparr>),
                pool_brk := Suc (pool_brk w1)\<rparr>"
    by (auto simp: resource_pool_copy_def impl_copy_def Let_def
          split: option.splits sum.splits prod.splits)
  note fr = copy_fill_release [OF cf, of cnt]
  from fr show "release_log w' = release_log w" by (simp add: w')
  assume c: "counted cnt w"
  with p have cp: "counts_recycles cnt p" by (simp add: counted_def)
  with fr have "cnt (env w') = cnt (env w)" by (simp add: w' counts_recycles_def)
  moreover from c cp fr have "counted cnt w'"
    by (auto simp: counted_def w' counts_recycles_def)
  ultimately show "counted cnt w' \<and> cnt (env w') = cnt (env w)" by simp
qed

lemma resource_pool_copy_throw_release:
  assumes "resource_pool_copy q w = Inl (AllocateThrew w')"
  shows "release_log w' = release_log w"
    and "counted cnt w \<Longrightarrow> counted cnt w' \<and> cnt (env w') = cnt (env w)"
proof -
  from assms obtain p where p: "pools w q = Some p"
    and cf: "copy_fill (vec_size (m_free_vector p) mod 2 ^ 32) (m_allocate p)
           (vec_reserve (vec_capacity (m_free_vector p)) vec_new) w = Inl (AllocateThrew w')"
    by (auto simp: resource_pool_copy_def impl_copy_def Let_def
          split: option.splits sum.splits prod.splits)
  from copy_fill_throw_release [OF cf, of cnt]
  have fr: "release_log w' = release_log w" "pools w' = pools w"
    "(\<forall>e. cnt (snd (m_allocate p e)) = cnt e) \<longrightarrow> cnt (env w') = cnt (env w)"
    by simp_all
  from fr show "release_log w' = release_log w" by simp
  assume c: "counted cnt w"
  with p have "counts_recycles cnt p" by (simp add: counted_def)
  with c fr show "counted cnt w' \<and> cnt (env w') = cnt (env w)"
    by (simp add: counted_def counts_recycles_def)
qed

lemma perform_release:
  assumes "perform a w = Inr w'"
  shows "release_log w' = release_log w @ expected_release_events a w"
    and "counted cnt w \<Longrightarrow> counting_action cnt a \<Longrightarrow>
           counted cnt w' \<and>
           cnt (env w') = cnt (env w) + length (calls_in (expected_release_events a w))"
proof -
  have "release_log w' = release_log w @ expected_release_events a w \<and>
        (counted cnt w \<longrightarrow> counting_action cnt a \<longrightarrow>
           counted cnt w' \<and>
           cnt (env w') = cnt (env w) + length (calls_in (expected_release_events a w)))"
  proof (cases a)
    case (Construct al re n)
    with assms show ?thesis
      by (auto simp: resource_pool_new_def release_log_def counted_def split: if_splits)
  next
    case (CopyPool q)
    show ?thesis
    proof (cases "resource_pool_copy q w")
      case (Inl f)
      with assms CopyPool have "f = AllocateThrew w'" by (cases f) auto
      with Inl resource_pool_copy_throw_release(1) [of q w w']
        resource_pool_copy_throw_release(2) [of q w w' cnt] CopyPool show ?thesis
        by simp
    next
      case (Inr qw)
      obtain q' w1 where qw: "qw = (q', w1)" by (cases qw)
      with assms CopyPool Inr have "w1 = w'" by simp
      with Inr qw resource_pool_copy_release(1) [of q w q' w']
        resource_pool_copy_release(2) [of q w q' w' cnt] CopyPool show ?thesis
        by simp
    qed
  next
    case (DestroyPool q)
    with assms show ?thesis
      by (auto simp: resource_pool_destroy_def release_all_def release_log_def counted_def
            split: option.splits if_splits)
  next
    case (Allocate q)
    show ?thesis
    proof (cases "allocate q w")
      case (Inl f)
      with assms Allocate have f: "f = AllocateThrew w'" by (cases f) auto
      note t = Inl [unfolded f]
      from allocate_throw_release(1,2) [OF t] allocate_throw_release(3) [OF t, of cnt]
        Allocate counted_same [of cnt w w']
      show ?thesis by auto
    next
      case (Inr hw)
      obtain h w1 where hw: "hw = (h, w1)" by (cases hw)
      with assms Allocate Inr have "w1 = w'" by simp
      with Inr hw have t: "allocate q w = Inr (h, w')" by simp
      from allocate_release(1,2) [OF t] allocate_release(3) [OF t, of cnt]
        Allocate counted_same [of cnt w w']
      show ?thesis by auto
    qed
  next
    case (FreeUnused q)
    with assms show ?thesis
      by (auto simp: free_unused_def impl_free_unused_def release_all_def release_log_def
            counted_def counts_recycles_def split: option.splits if_splits)
  next
    case (CopyHandle h)
    with assms show ?thesis
      by (auto simp: copy_handle_def release_log_def counted_def split: option.splits if_splits)
  next
    case (DropHandle h)
    with assms have t: "drop_handle h w = Inr w'" by simp
    from drop_handle_release(1,2) [OF t] drop_handle_release(3) [OF t, of cnt]
      DropHandle counted_same [of cnt w w']
    show ?thesis by auto
  next
    case (WeakHandle h)
    with assms show ?thesis
      by (auto simp: weak_handle_def release_log_def counted_def split: option.splits if_splits)
  next
    case (DropWeak h)
    with assms have t: "drop_weak h w = Inr w'" by simp
    from drop_weak_release [OF t] DropWeak counted_same [of cnt w w']
    show ?thesis by auto
  qed
  then show "release_log w' = release_log w @ expected_release_events a w"
    and "counted cnt w \<Longrightarrow> counting_action cnt a \<Longrightarrow>
           counted cnt w' \<and>
           cnt (env w') = cnt (env w) + length (calls_in (expected_release_events a w))"
    by simp_all
qed

lemma run_release:
  "run acts w = Inr w' \<Longrightarrow> release_log w' = release_log w @ expected_release_log acts w"
proof (induction acts arbitrary: w)
  case Nil
  then show ?case by simp
next
  case (Cons a acts)
  then obtain w1 where p: "perform a w = Inr w1" and r: "run acts w1 = Inr w'"
    by (auto split: sum.splits)
  from perform_release(1) [OF p] Cons.IH [OF r] p show ?case by simp
qed

lemma run_counter:
  "run acts w = Inr w' \<Longrightarrow> counted cnt w \<Longrightarrow> list_all (counting_action cnt) acts \<Longrightarrow>
     cnt (env w') = cnt (env w) + length (calls_in (expected_release_log acts w))"
proof (induction acts arbitrary: w)
  case Nil
  then show ?case by simp
next
  case (Cons a acts)
  then obtain w1 where p: "perform a w = Inr w1" and r: "run acts w1 = Inr w'"
    by (auto split: sum.splits)
  from perform_release(2) [OF p, of cnt] Cons.prems
  have c1: "counted cnt w1"
    and e1: "cnt (env w1) = cnt (env w) + length (calls_in (expected_release_events a w))"
    by simp_all
  from Cons.IH [OF r c1] Cons.prems e1 p show ?case by simp
qed

subsection \<open>A handle that outlives its pool (C1)\<close>

text \<open>
  Claim C1 says that releasing a handle after its pool core was destroyed frees the resource
  without any access to pool state. The deleter indeed skips \<open>recycle\<close> when the weak pointer
  is expired, but the handle's control block is then returned through its \<open>SimpleAllocator\<close>,
  whose \<open>deallocate\<close> reads \<open>m_free_vector_control_blocks\<close> (and locks \<open>m_mutex\<close>) of the destroyed
  core through the references it stores. In the run below (a pool of capacity 1, one handle,
  the pool destroyed, the handle dropped) the release ends in that dangling access.
\<close>

theorem C1_release_after_destroy_reads_pool:
  "run [Construct fresh_allocate None 1, Allocate 0, DestroyPool 0, DropHandle 0] (start (0, 0))
     = Inl DanglingPoolAccess"
  by (simp add: op_defs vec_defs example_defs)

subsection \<open>The capacity bound (C2)\<close>

text \<open>
  Claim C2: take a pool constructed with capacity \<open>c\<close>, in any state of the store, and let any
  client program run after that (calls of \<open>allocate()\<close>, handle copies and drops, weak
  references, \<open>free_unused()\<close>, on this pool or on others, also constructing, copying and
  destroying pools).
  In the state reached, \<open>unused_resources()\<close> of the pool returns at most \<open>c\<close>, and its free list
  and its cache of blocks hold at most \<open>c\<close> elements. Every prefix of a program is a program, so
  this holds at every point of the run.
\<close>

theorem C2_capacity_bound:
  assumes "resource_pool_new a r c w0 = (pr, w1)" and "run acts w1 = Inr w2"
  shows "(\<forall>n. unused_resources pr w2 = Inr n \<longrightarrow> n \<le> c) \<and>
         (\<forall>p. pools w2 pr = Some p \<longrightarrow>
            vec_size (m_free_vector p) \<le> c \<and> vec_size (m_free_vector_control_blocks p) \<le> c)"
proof -
  have "bounded_at c pr w1"
    using assms(1)
    by (auto simp: bounded_at_def resource_pool_new_def impl_new_def pool_bounded_def
          vec_size_def vec_capacity_def)
  then have "bounded_at c pr w2"
    using assms(2) by (rule run_bounded)
  then show ?thesis
    by (auto simp: bounded_at_def pool_bounded_def unused_resources_def impl_unused_resources_def
          split: option.splits)
qed

theorem C2_capacity_bound_witness:
  "\<exists>w1 w2. resource_pool_new fresh_allocate None 2 (start (0, 0)) = (0, w1) \<and>
     run [Allocate 0, Allocate 0, Allocate 0, DropHandle 1, DropHandle 2, DropHandle 0] w1 = Inr w2 \<and>
     unused_resources 0 w2 = Inr 2 \<and> (2::nat) \<le> 2 \<and> frees w2 = [0]"
proof -
  obtain w1 w2 where n: "resource_pool_new fresh_allocate None 2 (start (0, 0)) = (0, w1)"
    and r: "run [Allocate 0, Allocate 0, Allocate 0, DropHandle 1, DropHandle 2, DropHandle 0] w1
              = Inr w2"
    and u: "unused_resources 0 w2 = Inr 2" and f: "frees w2 = [0]"
    by (simp add: op_defs vec_defs example_defs frees_def)
  from C2_capacity_bound [OF n r] u f show ?thesis
    using n r by auto
qed

subsection \<open>The cache of control blocks (C3)\<close>

text \<open>
  As long as a program makes no weak reference to a handle, the cache of blocks is empty
  whenever the free list is, so a handle for a fresh resource never finds a block in the cache
  that it could have taken: in such programs a non-empty cache always serves the next handle.
\<close>

lemma cache_first_without_weak_references:
  assumes r: "run acts (start e) = Inr w" and s: "list_all strong_only acts"
    and p: "pools w pr = Some p"
  shows "(\<not> vec_empty (m_free_vector_control_blocks p) \<longrightarrow>
            (\<exists>w' p'. allocate pr w = Inr (vec_back (m_free_vector_control_blocks p), w') \<and>
               mallocs w' = mallocs w \<and> pools w' pr = Some p' \<and>
               m_free_vector_control_blocks p' = vec_pop_back (m_free_vector_control_blocks p))) \<and>
         (vec_empty (m_free_vector_control_blocks p) \<longrightarrow>
            (\<forall>h w'. allocate pr w = Inr (h, w') \<longrightarrow> mallocs w' = mallocs w @ [h])) \<and>
         (\<forall>h cb. handles w h = Some cb \<and> use_count cb = 1 \<and> a_pool cb = pr \<longrightarrow>
            (\<exists>w' p'. drop_handle h w = Inr w' \<and> pools w' pr = Some p' \<and>
               (if vec_size (m_free_vector_control_blocks p)
                     < vec_capacity (m_free_vector_control_blocks p)
                then m_free_vector_control_blocks p'
                       = vec_push_back h (m_free_vector_control_blocks p) \<and>
                     frees w' = frees w
                else m_free_vector_control_blocks p' = m_free_vector_control_blocks p \<and>
                     frees w' = frees w @ [h])))"
proof (intro conjI impI allI)
  have pw: "paired w"
    using paired_start s r by (rule run_paired)
  with p have pp: "pool_paired p" by (simp add: paired_def)
  {
    assume ne: "\<not> vec_empty (m_free_vector_control_blocks p)"
    with pp have fv: "elems (m_free_vector p) \<noteq> []"
      by (auto simp: pool_paired_def vec_defs)
    from allocate_hit [OF p fv] ne
    show "\<exists>w' p'. allocate pr w = Inr (vec_back (m_free_vector_control_blocks p), w') \<and>
               mallocs w' = mallocs w \<and> pools w' pr = Some p' \<and>
               m_free_vector_control_blocks p' = vec_pop_back (m_free_vector_control_blocks p)"
      by (simp add: Let_def vec_empty_def vec_back_def mallocs_def)
  }
  {
    fix h w'
    assume em: "vec_empty (m_free_vector_control_blocks p)" and a: "allocate pr w = Inr (h, w')"
    show "mallocs w' = mallocs w @ [h]"
    proof (cases "elems (m_free_vector p) = []")
      case True
      from a allocate_miss [OF p True] show ?thesis
        by (auto simp: mallocs_def split: prod.splits option.splits)
    next
      case False
      from a em allocate_hit [OF p False] show ?thesis
        by (auto simp: mallocs_def Let_def vec_empty_def)
    qed
  }
  {
    fix h cb
    assume h: "handles w h = Some cb \<and> use_count cb = 1 \<and> a_pool cb = pr"
    with pw have d: "d_pool cb = pr" and k: "weak_count cb = 0" by (auto simp: paired_def)
    from h d p have "pools w (d_pool cb) = Some p" "a_pool cb = d_pool cb" "use_count cb = 1"
      "handles w h = Some cb"
      by simp_all
    from drop_handle_last [OF this(4) this(3) this(1) this(2)] d k
    show "\<exists>w' p'. drop_handle h w = Inr w' \<and> pools w' pr = Some p' \<and>
               (if vec_size (m_free_vector_control_blocks p)
                     < vec_capacity (m_free_vector_control_blocks p)
                then m_free_vector_control_blocks p'
                       = vec_push_back h (m_free_vector_control_blocks p) \<and>
                     frees w' = frees w
                else m_free_vector_control_blocks p' = m_free_vector_control_blocks p \<and>
                     frees w' = frees w @ [h])"
      by (cases "m_recycle p") (simp_all add: recycled_impl_def frees_def)
  }
qed

text \<open>
  Claim C3, as amended, for every live pool in every state. Creating a handle: if \<open>allocate()\<close>
  reuses an idle resource and the cache of blocks is not empty, it returns, the handle's block
  is the block at the back of the cache, which is popped, and \<open>std::malloc\<close> is not called. If
  the free list is empty (the handle is for a fresh resource) or the cache is empty, every
  handle that \<open>allocate()\<close> returns has a block that this call obtained from \<open>std::malloc\<close>, and
  the cache is left as it is. Releasing the block of a handle issued by the pool (the last
  owner goes away and there is no weak reference, or the last weak reference goes away after
  the last owner): the block is pushed on the cache and not freed if the cache holds fewer
  blocks than its capacity, and is otherwise given to \<open>std::free\<close>, the cache staying as it is.
\<close>

theorem C3_cache_on_reuse:
  assumes p: "pools w pr = Some p"
  shows "(\<not> vec_empty (m_free_vector p) \<and> \<not> vec_empty (m_free_vector_control_blocks p) \<longrightarrow>
            (\<exists>w' p'. allocate pr w = Inr (vec_back (m_free_vector_control_blocks p), w') \<and>
               mallocs w' = mallocs w \<and> pools w' pr = Some p' \<and>
               m_free_vector_control_blocks p' = vec_pop_back (m_free_vector_control_blocks p))) \<and>
         (vec_empty (m_free_vector p) \<or> vec_empty (m_free_vector_control_blocks p) \<longrightarrow>
            (\<forall>h w'. allocate pr w = Inr (h, w') \<longrightarrow>
               mallocs w' = mallocs w @ [h] \<and>
               (\<exists>p'. pools w' pr = Some p' \<and>
                  m_free_vector_control_blocks p' = m_free_vector_control_blocks p))) \<and>
         (\<forall>h cb. handles w h = Some cb \<and> d_pool cb = pr \<and> a_pool cb = pr \<and>
              (use_count cb = 1 \<and> weak_count cb = 0 \<or> use_count cb = 0 \<and> weak_count cb = 1) \<longrightarrow>
            (\<exists>w' p'. (if use_count cb = 1 then drop_handle h w else drop_weak h w) = Inr w' \<and>
               pools w' pr = Some p' \<and>
               (if vec_size (m_free_vector_control_blocks p)
                     < vec_capacity (m_free_vector_control_blocks p)
                then m_free_vector_control_blocks p'
                       = vec_push_back h (m_free_vector_control_blocks p) \<and>
                     frees w' = frees w
                else m_free_vector_control_blocks p' = m_free_vector_control_blocks p \<and>
                     frees w' = frees w @ [h])))"
proof -
  have A: "\<not> vec_empty (m_free_vector p) \<and> \<not> vec_empty (m_free_vector_control_blocks p) \<longrightarrow>
            (\<exists>w' p'. allocate pr w = Inr (vec_back (m_free_vector_control_blocks p), w') \<and>
               mallocs w' = mallocs w \<and> pools w' pr = Some p' \<and>
               m_free_vector_control_blocks p' = vec_pop_back (m_free_vector_control_blocks p))"
  proof
    assume "\<not> vec_empty (m_free_vector p) \<and> \<not> vec_empty (m_free_vector_control_blocks p)"
    then have fv: "elems (m_free_vector p) \<noteq> []"
      and ne: "elems (m_free_vector_control_blocks p) \<noteq> []"
      by (simp_all add: vec_empty_def)
    from allocate_hit [OF p fv] ne
    show "\<exists>w' p'. allocate pr w = Inr (vec_back (m_free_vector_control_blocks p), w') \<and>
               mallocs w' = mallocs w \<and> pools w' pr = Some p' \<and>
               m_free_vector_control_blocks p' = vec_pop_back (m_free_vector_control_blocks p)"
      by (simp add: Let_def vec_back_def mallocs_def)
  qed
  have B: "vec_empty (m_free_vector p) \<or> vec_empty (m_free_vector_control_blocks p) \<longrightarrow>
            (\<forall>h w'. allocate pr w = Inr (h, w') \<longrightarrow>
               mallocs w' = mallocs w @ [h] \<and>
               (\<exists>p'. pools w' pr = Some p' \<and>
                  m_free_vector_control_blocks p' = m_free_vector_control_blocks p))"
  proof (intro impI allI)
    fix h w'
    assume em: "vec_empty (m_free_vector p) \<or> vec_empty (m_free_vector_control_blocks p)"
      and a: "allocate pr w = Inr (h, w')"
    show "mallocs w' = mallocs w @ [h] \<and>
               (\<exists>p'. pools w' pr = Some p' \<and>
                  m_free_vector_control_blocks p' = m_free_vector_control_blocks p)"
    proof (cases "elems (m_free_vector p) = []")
      case True
      from a allocate_miss [OF p True] p show ?thesis
        by (auto simp: mallocs_def split: prod.splits option.splits)
    next
      case False
      with em have "elems (m_free_vector_control_blocks p) = []"
        by (simp add: vec_empty_def)
      with a allocate_hit [OF p False] show ?thesis
        by (auto simp: mallocs_def Let_def)
    qed
  qed
  have C: "\<forall>h cb. handles w h = Some cb \<and> d_pool cb = pr \<and> a_pool cb = pr \<and>
              (use_count cb = 1 \<and> weak_count cb = 0 \<or> use_count cb = 0 \<and> weak_count cb = 1) \<longrightarrow>
            (\<exists>w' p'. (if use_count cb = 1 then drop_handle h w else drop_weak h w) = Inr w' \<and>
               pools w' pr = Some p' \<and>
               (if vec_size (m_free_vector_control_blocks p)
                     < vec_capacity (m_free_vector_control_blocks p)
                then m_free_vector_control_blocks p'
                       = vec_push_back h (m_free_vector_control_blocks p) \<and>
                     frees w' = frees w
                else m_free_vector_control_blocks p' = m_free_vector_control_blocks p \<and>
                     frees w' = frees w @ [h]))"
  proof (intro impI allI)
    fix h cb
    assume h: "handles w h = Some cb \<and> d_pool cb = pr \<and> a_pool cb = pr \<and>
              (use_count cb = 1 \<and> weak_count cb = 0 \<or> use_count cb = 0 \<and> weak_count cb = 1)"
    then have hc: "handles w h = Some cb" and pd: "pools w (d_pool cb) = Some p"
      and pa: "pools w (a_pool cb) = Some p" and ad: "a_pool cb = d_pool cb"
      using p by simp_all
    from h consider "use_count cb = 1" "weak_count cb = 0" | "use_count cb = 0" "weak_count cb = 1"
      by atomize_elim simp
    then show "\<exists>w' p'. (if use_count cb = 1 then drop_handle h w else drop_weak h w) = Inr w' \<and>
               pools w' pr = Some p' \<and>
               (if vec_size (m_free_vector_control_blocks p)
                     < vec_capacity (m_free_vector_control_blocks p)
                then m_free_vector_control_blocks p'
                       = vec_push_back h (m_free_vector_control_blocks p) \<and>
                     frees w' = frees w
                else m_free_vector_control_blocks p' = m_free_vector_control_blocks p \<and>
                     frees w' = frees w @ [h])"
    proof cases
      case 1
      from drop_handle_last [OF hc 1(1) pd ad] 1 h show ?thesis
        by (cases "m_recycle p") (simp_all add: recycled_impl_def frees_def)
    next
      case 2
      from drop_weak_last [OF hc 2 pa] 2 h p show ?thesis
        by (simp add: frees_def)
    qed
  qed
  from A B C show ?thesis by (intro conjI)
qed

theorem C3_cache_on_reuse_witness:
  "(\<exists>w'. allocate 0 one_idle = Inr (0, w') \<and> mallocs w' = mallocs one_idle) \<and>
   (\<exists>w'. allocate 0 stale_cache = Inr (2, w') \<and> mallocs w' = mallocs stale_cache @ [2]) \<and>
   (\<exists>w'. drop_handle 1 one_idle = Inr w' \<and> frees w' = frees one_idle) \<and>
   (\<exists>w'. drop_weak 0 expired_handle = Inr w' \<and> frees w' = frees expired_handle)"
proof -
  obtain p where p: "pools one_idle 0 = Some p"
    and ne: "\<not> vec_empty (m_free_vector p) \<and> \<not> vec_empty (m_free_vector_control_blocks p)"
    and b: "vec_back (m_free_vector_control_blocks p) = 0"
    and room: "vec_size (m_free_vector_control_blocks p)
                 < vec_capacity (m_free_vector_control_blocks p)"
    by (simp add: op_defs vec_defs example_defs)
  obtain cb where cb: "handles one_idle 1 = Some cb \<and> d_pool cb = 0 \<and> a_pool cb = 0 \<and>
      (use_count cb = 1 \<and> weak_count cb = 0 \<or> use_count cb = 0 \<and> weak_count cb = 1)"
    and u: "use_count cb = 1"
    by (simp add: op_defs vec_defs example_defs)
  note t = C3_cache_on_reuse [OF p]
  from t [THEN conjunct1] ne b
  have 1: "\<exists>w'. allocate 0 one_idle = Inr (0, w') \<and> mallocs w' = mallocs one_idle"
    by auto
  from t [THEN conjunct2, THEN conjunct2, rule_format, OF cb] u room
  have 2: "\<exists>w'. drop_handle 1 one_idle = Inr w' \<and> frees w' = frees one_idle"
    by auto
  obtain p' where p': "pools stale_cache 0 = Some p'"
    and em: "vec_empty (m_free_vector p') \<or> vec_empty (m_free_vector_control_blocks p')"
    by (simp add: op_defs vec_defs example_defs)
  obtain w' where a: "allocate 0 stale_cache = Inr (2, w')"
    by (simp add: op_defs vec_defs example_defs)
  from C3_cache_on_reuse [OF p', THEN conjunct2, THEN conjunct1, rule_format, OF em a] a
  have 3: "\<exists>w'. allocate 0 stale_cache = Inr (2, w') \<and> mallocs w' = mallocs stale_cache @ [2]"
    by auto
  obtain p'' where p'': "pools expired_handle 0 = Some p''"
    and room'': "vec_size (m_free_vector_control_blocks p'')
                 < vec_capacity (m_free_vector_control_blocks p'')"
    by (simp add: op_defs vec_defs example_defs)
  obtain cb' where cb': "handles expired_handle 0 = Some cb' \<and> d_pool cb' = 0 \<and> a_pool cb' = 0 \<and>
      (use_count cb' = 1 \<and> weak_count cb' = 0 \<or> use_count cb' = 0 \<and> weak_count cb' = 1)"
    and u': "use_count cb' = 0"
    by (simp add: op_defs vec_defs example_defs)
  from C3_cache_on_reuse [OF p'', THEN conjunct2, THEN conjunct2, rule_format, OF cb'] u' room''
  have 4: "\<exists>w'. drop_weak 0 expired_handle = Inr w' \<and> frees w' = frees expired_handle"
    by auto
  from 1 2 3 4 show ?thesis by blast
qed

text \<open>
  Claim C3 as stated fails. A weak reference keeps the block of a dropped handle until after
  the resource was issued again; the block then enters the cache while the free list is empty:
  in \<open>stale_cache\<close> the cache holds block 0. The next \<open>allocate()\<close> makes a fresh resource, and the
  allocator of its handle is built with \<open>m_should_take_cached = false\<close>: the block is block 2,
  from \<open>std::malloc\<close>, and block 0 stays in the cache.
\<close>

theorem C3_fresh_resource_ignores_cache:
  "run [Construct fresh_allocate None 2, Allocate 0, WeakHandle 0, DropHandle 0, Allocate 0,
        DropWeak 0] (start (0, 0)) = Inr stale_cache \<and>
   map_option (\<lambda>p. elems (m_free_vector_control_blocks p)) (pools stale_cache 0) = Some [0] \<and>
   run [Allocate 0] stale_cache = Inr (after [Allocate 0] stale_cache) \<and>
   mallocs (after [Allocate 0] stale_cache) = mallocs stale_cache @ [2] \<and>
   handle_get 2 (after [Allocate 0] stale_cache) = Some 2 \<and>
   map_option (\<lambda>p. elems (m_free_vector_control_blocks p))
     (pools (after [Allocate 0] stale_cache) 0) = Some [0]"
  by (simp add: op_defs vec_defs example_defs mallocs_def handle_get_def)

subsection \<open>Round trip (C4)\<close>

text \<open>
  Claim C4: on a live pool with capacity above 0 (and a free list within its capacity, as
  every \<open>std::vector\<close> is), let \<open>allocate()\<close> return a handle. Dropping that handle returns,
  and the next \<open>allocate()\<close> returns a handle to the same resource without calling the
  allocation function (the recycle function cannot change which resource it is).
\<close>

theorem C4_round_trip:
  assumes p: "pools w pr = Some p"
    and c: "0 < vec_capacity (m_free_vector p)"
    and s: "vec_size (m_free_vector p) \<le> vec_capacity (m_free_vector p)"
    and a: "allocate pr w = Inr (h, w1)"
  shows "\<exists>r w2 h2 w3. handle_get h w1 = Some r \<and> drop_handle h w1 = Inr w2 \<and>
           allocate pr w2 = Inr (h2, w3) \<and> handle_get h2 w3 = Some r \<and>
           allocate_calls w3 = allocate_calls w2 \<and> env w3 = env w2"
proof -
  from allocate_Inr [OF p a] obtain cb p1 where
    cb: "handles w1 h = Some cb" "use_count cb = 1" "weak_count cb = 0" "d_pool cb = pr"
      "a_pool cb = pr"
    and p1: "pools w1 pr = Some p1"
    and r1: "reserved (m_free_vector p1) = reserved (m_free_vector p)"
    and e1: "elems (m_free_vector p1) = butlast (elems (m_free_vector p))"
    by blast
  have room: "vec_size (m_free_vector p1) < vec_capacity (m_free_vector p1)"
    using c s r1 e1 by (cases "elems (m_free_vector p) = []") (auto simp: vec_defs)
  have pd: "pools w1 (d_pool cb) = Some p1" and ad: "a_pool cb = d_pool cb"
    by (simp_all add: cb p1)
  from drop_handle_last [OF cb(1,2) pd ad] cb obtain w2 where
    d: "drop_handle h w1 = Inr w2"
    and p2: "pools w2 pr = Some (recycled_impl h (d_resource cb) p1)"
    by simp
  have ne: "elems (m_free_vector (recycled_impl h (d_resource cb) p1)) \<noteq> []"
    and la: "last (elems (m_free_vector (recycled_impl h (d_resource cb) p1))) = d_resource cb"
    using room by (simp_all add: recycled_impl_def vec_push_back_def)
  from allocate_hit_returns [OF p2 ne] obtain h2 w3 where
    a2: "allocate pr w2 = Inr (h2, w3)"
    by blast
  from allocate_Inr [OF p2 a2] ne la
  have "handle_get h2 w3 = Some (d_resource cb)" "allocate_calls w3 = allocate_calls w2"
    "env w3 = env w2"
    by (auto simp: handle_get_def)
  moreover have "handle_get h w1 = Some (d_resource cb)"
    by (simp add: handle_get_def cb)
  ultimately show ?thesis
    using d a2 by blast
qed

theorem C4_round_trip_witness:
  "\<exists>h w1. allocate 0 fresh_pool = Inr (h, w1) \<and>
     (\<exists>w2 h2 w3. handle_get h w1 = Some 1 \<and> drop_handle h w1 = Inr w2 \<and>
        allocate 0 w2 = Inr (h2, w3) \<and> handle_get h2 w3 = Some 1 \<and>
        allocate_calls w3 = allocate_calls w2 \<and> env w3 = env w2)"
proof -
  obtain p where p: "pools fresh_pool 0 = Some p"
    and c: "0 < vec_capacity (m_free_vector p)"
    and s: "vec_size (m_free_vector p) \<le> vec_capacity (m_free_vector p)"
    by (simp add: op_defs vec_defs example_defs)
  obtain h w1 where a: "allocate 0 fresh_pool = Inr (h, w1)" and g: "handle_get h w1 = Some 1"
    by (simp add: op_defs vec_defs example_defs handle_get_def)
  from C4_round_trip [OF p c s a] g show ?thesis
    using a by auto
qed

subsection \<open>Counting idle resources (C5)\<close>

text \<open>
  Claim C5: let \<open>w\<close> be the state right after the pool \<open>pr\<close> was constructed (from an allocation
  function, an optional recycle function and a capacity) or right after its \<open>free_unused()\<close>.
  If \<open>n\<close> calls of \<open>allocate()\<close> return the handles \<open>hs\<close>, then dropping these \<open>n\<close> handles, in any
  order \<open>ds\<close>, returns, and \<open>unused_resources()\<close> is then the minimum of \<open>n\<close> and the capacity of
  the free list, which after construction is the capacity the constructor was given.
\<close>

theorem C5_unused_after_dropping_all:
  assumes "(\<exists>a r c w0. resource_pool_new a r c w0 = (pr, w)) \<or> (\<exists>w0. free_unused pr w0 = Inr w)"
    and p: "pools w pr = Some p"
    and a: "allocate_n n pr w = Inr (hs, w1)"
    and s: "set ds = set hs" and d: "distinct ds"
  shows "(\<exists>w2. drop_all ds w1 = Inr w2 \<and>
            unused_resources pr w2 = Inr (min n (vec_capacity (m_free_vector p)))) \<and>
         (\<forall>a r c w0. resource_pool_new a r c w0 = (pr, w) \<longrightarrow> vec_capacity (m_free_vector p) = c)"
proof
  from assms(1) p have e: "elems (m_free_vector p) = []"
    by (auto simp: resource_pool_new_def impl_new_def free_unused_def impl_free_unused_def
          release_all_def vec_clear_def split: option.splits)
  from drop_all_after_allocate_n [OF p e a s d]
  show "\<exists>w2. drop_all ds w1 = Inr w2 \<and>
          unused_resources pr w2 = Inr (min n (vec_capacity (m_free_vector p)))"
    by (auto simp: unused_resources_def impl_unused_resources_def)
  from p show "\<forall>a r c w0. resource_pool_new a r c w0 = (pr, w) \<longrightarrow>
      vec_capacity (m_free_vector p) = c"
    by (auto simp: resource_pool_new_def impl_new_def vec_capacity_def)
qed

theorem C5_unused_after_dropping_all_witness:
  "\<exists>w1. allocate_n 3 0 fresh_pool = Inr ([0, 1, 2], w1) \<and>
     (\<exists>w2. drop_all [1, 2, 0] w1 = Inr w2 \<and> unused_resources 0 w2 = Inr 2)"
proof -
  have "resource_pool_new fresh_allocate (Some count_recycle) 2 (start (0, 0)) = (0, fresh_pool)"
    by (simp add: op_defs vec_defs example_defs)
  then have c: "(\<exists>a r c w0. resource_pool_new a r c w0 = (0, fresh_pool)) \<or>
      (\<exists>w0. free_unused 0 w0 = Inr fresh_pool)"
    by blast
  obtain p where p: "pools fresh_pool 0 = Some p" and cap: "vec_capacity (m_free_vector p) = 2"
    by (simp add: op_defs vec_defs example_defs)
  obtain w1 where a: "allocate_n 3 0 fresh_pool = Inr ([0, 1, 2], w1)"
    by (simp add: op_defs vec_defs example_defs numeral_3_eq_3)
  have s: "set [1, 2, 0 :: nat] = set [0, 1, 2]" by auto
  from C5_unused_after_dropping_all [OF c p a s] cap a show ?thesis
    by auto
qed

subsection \<open>The recycle function (C6)\<close>

text \<open>
  Claim C6, as amended: a release is the drop of the last owner of a handle while its pool is
  alive. Whatever a client program does, if it runs to its end then the record it leaves of
  calls of the recycle function and of outcomes of the capacity check is exactly the expected
  one: for each release, in the order of the releases, one call of the recycle function on the
  resource of the handle (if a recycle function was supplied), immediately followed by the
  outcome \<open>Recycled\<close> or \<open>Freed\<close> of the capacity check for that resource, and nothing else. So
  the recycle function is called exactly once per release, before the capacity check, also when
  the free list is full, and by no other operation. A counter that every recycle function
  increments and no allocation function changes has grown, at the end of the program, by the
  number of releases from pools with a recycle function. Dropping distinct handles with a single
  owner each, issued by a live pool with the recycle function \<open>f\<close> to the resources \<open>rs\<close>,
  returns, and leaves the environment \<open>f\<close> folded over \<open>rs\<close>, whatever the length and the
  capacity of the free list. Dropping an owner of a handle that has other owners calls nothing.
  The claim as stated has no condition on the pool being alive.
\<close>

theorem C6_recycle_called_per_live_release:
  "(run acts w = Inr w' \<longrightarrow> release_log w' = release_log w @ expected_release_log acts w) \<and>
   (run acts w = Inr w' \<and> counted cnt w \<and> list_all (counting_action cnt) acts \<longrightarrow>
      cnt (env w') = cnt (env w) + length (calls_in (expected_release_log acts w))) \<and>
   (pools w pr = Some p \<and> m_recycle p = Some f \<and> distinct hs \<and>
    list_all2 (sole_handle pr w) hs rs \<longrightarrow>
      (\<exists>w1. drop_all hs w = Inr w1 \<and> recycled w1 = recycled w @ rs \<and>
         env w1 = fold f rs (env w))) \<and>
   (\<forall>h cb. handles w h = Some cb \<and> 1 < use_count cb \<longrightarrow>
      (\<exists>w1. drop_handle h w = Inr w1 \<and> recycled w1 = recycled w \<and> env w1 = env w))"
proof (intro conjI)
  show "run acts w = Inr w' \<longrightarrow> release_log w' = release_log w @ expected_release_log acts w"
    by (simp add: run_release)
  show "run acts w = Inr w' \<and> counted cnt w \<and> list_all (counting_action cnt) acts \<longrightarrow>
      cnt (env w') = cnt (env w) + length (calls_in (expected_release_log acts w))"
    by (simp add: run_counter)
  show "pools w pr = Some p \<and> m_recycle p = Some f \<and> distinct hs \<and>
    list_all2 (sole_handle pr w) hs rs \<longrightarrow>
      (\<exists>w1. drop_all hs w = Inr w1 \<and> recycled w1 = recycled w @ rs \<and>
         env w1 = fold f rs (env w))"
  proof
    assume a: "pools w pr = Some p \<and> m_recycle p = Some f \<and> distinct hs \<and>
      list_all2 (sole_handle pr w) hs rs"
    then have "pools w pr = Some p" "distinct hs" "list_all2 (sole_handle pr w) hs rs"
      by simp_all
    from drop_all_sole [OF this] a
    show "\<exists>w1. drop_all hs w = Inr w1 \<and> recycled w1 = recycled w @ rs \<and>
         env w1 = fold f rs (env w)"
      by auto
  qed
  show "\<forall>h cb. handles w h = Some cb \<and> 1 < use_count cb \<longrightarrow>
      (\<exists>w1. drop_handle h w = Inr w1 \<and> recycled w1 = recycled w \<and> env w1 = env w)"
    by (auto simp: drop_handle_shared recycled_def)
qed

theorem C6_recycle_called_per_live_release_witness:
  "(\<exists>w'. run full_run (start (0, 0)) = Inr w' \<and>
      release_log w' = [RecycleCalled 1, Recycled 1, RecycleCalled 2, Freed 2] \<and>
      snd (env w') = 2) \<and>
   (\<exists>w'. drop_all [0, 1] small_issued = Inr w' \<and> recycled w' = [1, 2] \<and> snd (env w') = 2 \<and>
      unused_resources 0 w' = Inr 1) \<and>
   (\<exists>w'. drop_handle 0 shared_issued = Inr w' \<and> recycled w' = [] \<and> snd (env w') = 0)"
proof -
  obtain w' where r: "run full_run (start (0, 0)) = Inr w'"
    by (simp add: full_run_def op_defs vec_defs example_defs)
  have x: "expected_release_log full_run (start (0, 0))
             = [RecycleCalled 1, Recycled 1, RecycleCalled 2, Freed 2]"
    by (simp add: full_run_def op_defs vec_defs example_defs)
  have c: "counted snd (start (0, 0) :: (nat, nat \<times> nat) world)"
    "list_all (counting_action snd) full_run"
    by (simp_all add: full_run_def counted_def counts_recycles_def impl_new_def example_defs)
  have s: "release_log (start (0, 0) :: (nat, nat \<times> nat) world) = []"
    "env (start (0, 0) :: (nat, nat \<times> nat) world) = (0, 0)"
    by (simp_all add: release_log_def start_def)
  note t = C6_recycle_called_per_live_release [of full_run "start (0, 0)" w' snd]
  from t [THEN conjunct1] r x s
  have 1: "release_log w' = [RecycleCalled 1, Recycled 1, RecycleCalled 2, Freed 2]"
    by simp
  from t [THEN conjunct2, THEN conjunct1] r c x s
  have 2: "snd (env w') = 2"
    by simp
  obtain p where p: "pools small_issued 0 = Some p" and f: "m_recycle p = Some count_recycle"
    by (simp add: op_defs vec_defs example_defs)
  have l: "distinct [0, 1 :: nat]" "list_all2 (sole_handle 0 small_issued) [0, 1] [1, 2]"
    by (simp_all add: op_defs vec_defs example_defs sole_handle_def)
  have e: "env small_issued = (2, 0)" "recycled small_issued = []"
    by (simp_all add: op_defs vec_defs example_defs recycled_def)
  from C6_recycle_called_per_live_release
      [of _ small_issued _ _ 0 p count_recycle "[0, 1]" "[1, 2]",
       THEN conjunct2, THEN conjunct2, THEN conjunct1] p f l e
  obtain w1 where w1: "drop_all [0, 1] small_issued = Inr w1" "recycled w1 = [1, 2]"
    "snd (env w1) = 2"
    by (auto simp: count_recycle_def)
  have u: "unused_resources 0 w1 = Inr 1"
    using w1(1) by (auto simp: op_defs vec_defs example_defs)
  obtain cb where cb: "handles shared_issued 0 = Some cb \<and> 1 < use_count cb"
    by (simp add: op_defs vec_defs example_defs)
  have e': "env shared_issued = (2, 0)" "recycled shared_issued = []"
    by (simp_all add: op_defs vec_defs example_defs recycled_def)
  from C6_recycle_called_per_live_release
      [of _ shared_issued, THEN conjunct2, THEN conjunct2, THEN conjunct2, rule_format, OF cb] e'
  have 3: "\<exists>w'. drop_handle 0 shared_issued = Inr w' \<and> recycled w' = [] \<and> snd (env w') = 0"
    by auto
  from r 1 2 w1 u 3 show ?thesis by blast
qed

text \<open>
  Claim C6 as stated fails for a handle that outlives its pool: \<open>deleter::operator()\<close> calls
  \<open>recycle\<close>, and with it the recycle function, only if \<open>m_pool.lock()\<close> succeeds. Here a pool
  with the counting recycle function issues one handle and is destroyed; when the handle's only
  owner goes away the deleter runs without any call of the recycle function, and the counter
  stays at 0 (the release then ends in the dangling access of the destroyed pool).
\<close>

theorem C6_no_recycle_after_pool_destroyed:
  "run [Construct fresh_allocate (Some count_recycle) 1, Allocate 0, DestroyPool 0] (start (0, 0))
     = Inr orphan \<and>
   handles orphan 0 = Some orphan_block \<and> use_count orphan_block = 1 \<and>
   recycled (deleter_call orphan_block orphan) = [] \<and>
   snd (env (deleter_call orphan_block orphan)) = 0 \<and>
   drop_handle 0 orphan = Inl DanglingPoolAccess"
  by (simp add: op_defs vec_defs example_defs recycled_def)

subsection \<open>\<open>free_unused()\<close> (C7)\<close>

text \<open>
  Claim C7: on a live pool, \<open>free_unused()\<close> returns; afterwards the free list and the cache of
  blocks of that pool are empty and \<open>unused_resources()\<close> is 0. Every handle (its control block
  with the owning reference to its resource) is as before, as are the environment and all
  other pools; the cached blocks, and nothing else, went to \<open>std::free\<close>.
\<close>

theorem C7_free_unused_empties:
  assumes "pools w pr = Some p"
  shows "\<exists>w' p'. free_unused pr w = Inr w' \<and> pools w' pr = Some p' \<and>
           elems (m_free_vector p') = [] \<and> elems (m_free_vector_control_blocks p') = [] \<and>
           unused_resources pr w' = Inr 0 \<and>
           handles w' = handles w \<and> env w' = env w \<and>
           (\<forall>q. q \<noteq> pr \<longrightarrow> pools w' q = pools w q) \<and>
           trace w' = trace w @ map Free (elems (m_free_vector_control_blocks p))"
  using assms by (simp add: op_defs vec_defs)

theorem C7_free_unused_empties_witness:
  "unused_resources 0 one_idle = Inr 1 \<and> handle_get 1 one_idle = Some 2 \<and>
   (\<exists>w'. free_unused 0 one_idle = Inr w' \<and> unused_resources 0 w' = Inr 0 \<and>
      handle_get 1 w' = Some 2 \<and> frees w' = [0])"
proof -
  obtain p where p: "pools one_idle 0 = Some p"
      and c: "elems (m_free_vector_control_blocks p) = [0]"
    by (simp add: op_defs vec_defs example_defs)
  have t: "frees one_idle = []"
    by (simp add: op_defs vec_defs example_defs frees_def)
  have "unused_resources 0 one_idle = Inr 1" "handle_get 1 one_idle = Some 2"
    by (simp_all add: op_defs vec_defs example_defs handle_get_def)
  with C7_free_unused_empties [OF p] c t show ?thesis
    by (auto simp: handle_get_def frees_def)
qed

subsection \<open>Copying a pool (C8)\<close>

text \<open>
  Claim C8 fails from \<open>2 ^ 32\<close> idle resources on: the copy constructor reads the count into a
  \<open>uint32_t\<close>. On a fresh pool of capacity \<open>2 ^ 32\<close>, \<open>2 ^ 32\<close> calls of \<open>allocate()\<close> return, and
  dropping the handles returns and leaves \<open>2 ^ 32\<close> idle resources; copying the pool then
  returns a pool with no idle resource, and the allocation function is not called at all.
\<close>

theorem C8_copy_truncates_count:
  "\<exists>hs w1 w2. allocate_n (2 ^ 32) 0 big_fresh = Inr (hs, w1) \<and> drop_all hs w1 = Inr w2 \<and>
     unused_resources 0 w2 = Inr (2 ^ 32) \<and>
     (\<exists>q w3. resource_pool_copy 0 w2 = Inr (q, w3) \<and> unused_resources q w3 = Inr 0 \<and>
        allocate_calls w3 = allocate_calls w2)"
proof -
  obtain p where p: "pools big_fresh 0 = Some p" and e: "elems (m_free_vector p) = []"
    and c: "vec_capacity (m_free_vector p) = 2 ^ 32"
    and m: "m_allocate p = fresh_allocate"
    by (simp add: big_fresh_def after_def start_def resource_pool_new_def impl_new_def
          vec_capacity_def)
  have "\<forall>e. fst (m_allocate p e) \<noteq> None"
    by (simp add: m fresh_allocate_def)
  from allocate_n_returns [OF p e this] obtain hs w1 where
    a: "allocate_n (2 ^ 32) 0 big_fresh = Inr (hs, w1)"
    by blast
  from allocate_n_fresh [OF p e a] have dh: "distinct hs" by simp
  from drop_all_after_allocate_n [OF p e a refl dh] c obtain w2 p2 where
    w2: "drop_all hs w1 = Inr w2" "pools w2 0 = Some p2" "vec_size (m_free_vector p2) = 2 ^ 32"
    by auto
  from resource_pool_copy_wraps [OF w2(2,3)] a w2 show ?thesis
    by (auto simp: unused_resources_def impl_unused_resources_def)
qed

subsection \<open>A throwing allocation function (C9)\<close>

text \<open>
  Claim C9: when \<open>allocate()\<close> calls the allocation function (the free list is empty) and it
  throws, \<open>allocate()\<close> propagates the throw; the state left behind differs from the state
  before only by what the allocation function itself did to the environment and by the record
  of the call: pools (free lists and caches), handles and heap are untouched. A following
  \<open>allocate()\<close> for which the allocation function succeeds returns a handle to the new
  resource.
\<close>

theorem C9_allocate_failure_propagates:
  assumes p: "pools w pr = Some p"
    and e: "vec_empty (m_free_vector p)"
    and f: "m_allocate p (env w) = (None, e')"
  shows "allocate pr w = Inl (AllocateThrew (w\<lparr>env := e', trace := trace w @ [AllocateCalled]\<rparr>)) \<and>
         (\<forall>r e''. m_allocate p e' = (Some r, e'') \<longrightarrow>
            (\<exists>h w''. allocate pr (w\<lparr>env := e', trace := trace w @ [AllocateCalled]\<rparr>) = Inr (h, w'') \<and>
               handle_get h w'' = Some r \<and> env w'' = e'' \<and> pools w'' = pools w))"
  using assms
  by (auto simp: allocate_miss vec_empty_def handle_get_def)

theorem C9_allocate_failure_propagates_witness:
  "allocate 0 flaky_pool = Inl (AllocateThrew (flaky_pool\<lparr>env := (1, 0), trace := [AllocateCalled]\<rparr>)) \<and>
   (\<exists>h w''. allocate 0 (flaky_pool\<lparr>env := (1, 0), trace := [AllocateCalled]\<rparr>) = Inr (h, w'') \<and>
       handle_get h w'' = Some 2 \<and> pools w'' = pools flaky_pool)"
proof -
  obtain p where p: "pools flaky_pool 0 = Some p" and e: "vec_empty (m_free_vector p)"
    and f: "m_allocate p (env flaky_pool) = (None, (1, 0))"
    and g: "m_allocate p (1, 0) = (Some 2, (2, 0))"
    and t: "trace flaky_pool = []"
    by (simp add: op_defs vec_defs example_defs)
  from C9_allocate_failure_propagates [OF p e f] g t show ?thesis
    by auto
qed

subsection \<open>The free list is a stack (C10)\<close>

text \<open>
  Claim C10: on a live pool with a non-empty free list \<open>allocate()\<close> returns a handle to the
  resource at the back of \<open>m_free_vector\<close>; and the back is the resource recycled last: if the
  handles \<open>hs\<close> to the resources \<open>rs\<close> are dropped one after the other while the free list has
  room for all of them, the following \<open>length hs\<close> calls of \<open>allocate()\<close> return the resources
  \<open>rs\<close> in reverse order, without a call of the allocation function, and leave the free list
  as it was before the drops.
\<close>

theorem C10_free_list_is_a_stack:
  assumes p: "pools w pr = Some p"
    and d: "distinct hs" and l: "list_all2 (sole_handle pr w) hs rs"
    and room: "vec_size (m_free_vector p) + length hs \<le> vec_capacity (m_free_vector p)"
  shows "(\<not> vec_empty (m_free_vector p) \<longrightarrow>
            (\<exists>h w'. allocate pr w = Inr (h, w') \<and>
               handle_get h w' = Some (vec_back (m_free_vector p)))) \<and>
         (\<exists>w1 w2 p2. drop_all hs w = Inr w1 \<and>
            allocate_resources (length hs) pr w1 = Inr (rev rs, w2) \<and>
            allocate_calls w2 = allocate_calls w \<and>
            pools w2 pr = Some p2 \<and> elems (m_free_vector p2) = elems (m_free_vector p))"
proof
  show "\<not> vec_empty (m_free_vector p) \<longrightarrow>
            (\<exists>h w'. allocate pr w = Inr (h, w') \<and>
               handle_get h w' = Some (vec_back (m_free_vector p)))"
  proof
    assume "\<not> vec_empty (m_free_vector p)"
    then have ne: "elems (m_free_vector p) \<noteq> []" by (simp add: vec_empty_def)
    from allocate_hit_returns [OF p ne] obtain h w' where a: "allocate pr w = Inr (h, w')"
      by blast
    from allocate_Inr [OF p a] ne have "handle_get h w' = Some (vec_back (m_free_vector p))"
      by (auto simp: handle_get_def vec_back_def)
    with a show "\<exists>h w'. allocate pr w = Inr (h, w') \<and>
               handle_get h w' = Some (vec_back (m_free_vector p))"
      by blast
  qed
  from l have len: "length rs = length hs" by (simp add: list_all2_lengthD)
  from drop_all_sole [OF p d l] obtain w1 p1 where
    w1: "drop_all hs w = Inr w1" "pools w1 pr = Some p1"
      "elems (m_free_vector p1) = elems (m_free_vector p)
        @ take (reserved (m_free_vector p) - length (elems (m_free_vector p))) rs"
      "allocate_calls w1 = allocate_calls w"
    by blast
  from room len have "take (reserved (m_free_vector p) - length (elems (m_free_vector p))) rs = rs"
    by (simp add: vec_size_def vec_capacity_def)
  with w1 have e1: "elems (m_free_vector p1) = elems (m_free_vector p) @ rs" by simp
  from allocate_resources_pops [OF w1(2) e1] len w1
  show "\<exists>w1 w2 p2. drop_all hs w = Inr w1 \<and>
            allocate_resources (length hs) pr w1 = Inr (rev rs, w2) \<and>
            allocate_calls w2 = allocate_calls w \<and>
            pools w2 pr = Some p2 \<and> elems (m_free_vector p2) = elems (m_free_vector p)"
    by auto
qed

theorem C10_free_list_is_a_stack_witness:
  "(\<exists>h w'. allocate 0 one_idle = Inr (h, w') \<and> handle_get h w' = Some 1) \<and>
   (\<exists>w1 w2. drop_all [0, 1] two_issued = Inr w1 \<and>
      allocate_resources 2 0 w1 = Inr ([2, 1], w2) \<and>
      allocate_calls w2 = allocate_calls two_issued)"
proof -
  obtain p where p: "pools one_idle 0 = Some p" and ne: "\<not> vec_empty (m_free_vector p)"
    and b: "vec_back (m_free_vector p) = 1"
    and room: "vec_size (m_free_vector p) + length ([] :: nat list) \<le> vec_capacity (m_free_vector p)"
    by (simp add: op_defs vec_defs example_defs)
  from C10_free_list_is_a_stack [OF p _ _ room, of "[]"] ne b
  have 1: "\<exists>h w'. allocate 0 one_idle = Inr (h, w') \<and> handle_get h w' = Some 1"
    by auto
  obtain p' where p': "pools two_issued 0 = Some p'"
    and room': "vec_size (m_free_vector p') + length [0, 1 :: nat] \<le> vec_capacity (m_free_vector p')"
    by (simp add: op_defs vec_defs example_defs)
  have l: "list_all2 (sole_handle 0 two_issued) [0, 1] [1, 2]"
    by (simp add: op_defs vec_defs example_defs sole_handle_def)
  have d: "distinct [0, 1 :: nat]" by simp
  have len: "length [0, 1 :: nat] = 2" "rev [1, 2 :: nat] = [2, 1]" by simp_all
  from C10_free_list_is_a_stack [OF p' d l room', THEN conjunct2]
  have "\<exists>w1 w2. drop_all [0, 1] two_issued = Inr w1 \<and>
      allocate_resources 2 0 w1 = Inr ([2, 1], w2) \<and>
      allocate_calls w2 = allocate_calls two_issued"
    unfolding len by blast
  with 1 show ?thesis by blast
qed

end
